theory Spec2Isabelle
  imports
    Main
    "HOL-Library.AList"
    "HOL-Library.Char_ord"
    "HOL-Library.Extended_Nat"
    "HOL-Library.List_Lexorder"
    "HOL-Library.Monad_Syntax"
begin

section \<open>Data model\<close>

text \<open>
  A person record as the database adapter (\<^verbatim>\<open>loadNewDatabase\<close>) builds it.  Ids are
  strings, compared character by character as Javascript compares strings.  The parent
  links \<^verbatim>\<open>fid\<close> and \<^verbatim>\<open>mid\<close> are \<open>None\<close> for \<^verbatim>\<open>null\<close> and \<open>Some s\<close> for the
  string \<open>s\<close>; the adapter writes the empty string for a missing parent, and both
  \<^verbatim>\<open>null\<close> and the empty string are falsy.  The fields \<^verbatim>\<open>id\<close> and \<^verbatim>\<open>note\<close> carry a
  prime because the plain names are taken.  The field \<^verbatim>\<open>pids\<close> is an array: for a
  \<open>person\<close> it is the list of the partner ids; where the identity of the array matters
  (the heap model further down) it is a reference to the array.
\<close>

record 'a person_of =
  id' :: string
  name :: string
  fid :: "string option"
  mid :: "string option"
  pids :: 'a
  Birth :: string
  Death :: string
  Address :: string
  email :: string
  phone :: string
  note' :: string
  image_url :: string

type_synonym person = "string list person_of"

datatype gender = Male | Female

text \<open>
  A Javascript \<^verbatim>\<open>Map\<close> keeps its keys in insertion order and \<^verbatim>\<open>set\<close> on a present
  key replaces the value where it stands: an association list with \<^const>\<open>AList.update\<close>.
  The gender map is only read by key, so it is a partial function; its values are only
  ever \<^verbatim>\<open>'M'\<close> and \<^verbatim>\<open>'F'\<close> (the adapter stores nothing else, lines 1482--1483).
\<close>

type_synonym people_map = "(string \<times> person) list"
type_synonym children_map = "(string \<times> string list) list"
type_synonym gender_map = "string \<rightharpoonup> gender"

definition map_has :: "('k \<times> 'v) list \<Rightarrow> 'k \<Rightarrow> bool" where
  "map_has m k = (map_of m k \<noteq> None)"

definition map_set :: "'k \<Rightarrow> 'v \<Rightarrow> ('k \<times> 'v) list \<Rightarrow> ('k \<times> 'v) list" where
  "map_set k v m = AList.update k v m"

text \<open>\<^verbatim>\<open>if (person.fid)\<close>: the link when it is truthy, that is neither null nor empty.\<close>

fun truthy :: "string option \<Rightarrow> string option" where
  "truthy None = None"
| "truthy (Some s) = (if s = [] then None else Some s)"

record store =
  PEOPLE :: "person list"
  peopleMap :: people_map
  childrenMap :: children_map
  genderMap :: gender_map

section \<open>Building the lookups (\<^verbatim>\<open>buildLookups\<close>)\<close>

text \<open>
  \<^verbatim>\<open>addChild\<close> creates the parent's array when it is missing and pushes the child onto it.
\<close>

definition addChild :: "string \<Rightarrow> string \<Rightarrow> children_map \<Rightarrow> children_map" where
  "addChild parentKey childId cm =
     (let cm1 = (if \<not> map_has cm parentKey then map_set parentKey [] cm else cm)
      in case map_of cm1 parentKey of
           Some children \<Rightarrow> map_set parentKey (children @ [childId]) cm1
         | None \<Rightarrow> cm1)"

text \<open>The first \<^verbatim>\<open>PEOPLE.forEach\<close>: fill \<^verbatim>\<open>peopleMap\<close> and \<^verbatim>\<open>childrenMap\<close>.\<close>

fun indexPeople :: "person list \<Rightarrow> people_map \<times> children_map \<Rightarrow> people_map \<times> children_map" where
  "indexPeople [] (pm, cm) = (pm, cm)"
| "indexPeople (p # rest) (pm, cm) =
     (let pm1 = map_set (id' p) p pm;
          cm1 = (case truthy (fid p) of Some f \<Rightarrow> addChild f (id' p) cm | None \<Rightarrow> cm);
          cm2 = (case truthy (mid p) of Some m \<Rightarrow> addChild m (id' p) cm1 | None \<Rightarrow> cm1)
      in indexPeople rest (pm1, cm2))"

text \<open>
  \<^verbatim>\<open>children.sort()\<close> on every array of the map: the default sort orders strings
  lexicographically by character code.
\<close>

definition sortChildren :: "children_map \<Rightarrow> children_map" where
  "sortChildren cm = map (\<lambda>(k, children). (k, sort children)) cm"

text \<open>Gender pass 1, from parenthood: a value already present is kept.\<close>

fun inferFromParents :: "person list \<Rightarrow> gender_map \<Rightarrow> gender_map" where
  "inferFromParents [] gm = gm"
| "inferFromParents (p # rest) gm =
     (let gm1 = (case truthy (fid p) of
                   Some f \<Rightarrow> if gm f = None then gm(f \<mapsto> Male) else gm
                 | None \<Rightarrow> gm);
          gm2 = (case truthy (mid p) of
                   Some m \<Rightarrow> if gm1 m = None then gm1(m \<mapsto> Female) else gm1
                 | None \<Rightarrow> gm1)
      in inferFromParents rest gm2)"

fun opposite :: "gender \<Rightarrow> gender" where
  "opposite Male = Female"
| "opposite Female = Male"

text \<open>
  Gender pass 2, the body of \<^verbatim>\<open>person.pids.forEach\<close>: both genders are read first, then
  the two assignments are tried in turn.
\<close>

definition inferPartner :: "people_map \<Rightarrow> string \<Rightarrow> gender_map \<Rightarrow> string \<Rightarrow> gender_map" where
  "inferPartner pm p1_id gm p2_id =
     (if \<not> map_has pm p2_id then gm
      else
        let p1_gender = gm p1_id;
            p2_gender = gm p2_id;
            gm1 = (case (p1_gender, p2_gender) of
                     (Some g1, None) \<Rightarrow> gm(p2_id \<mapsto> opposite g1)
                   | _ \<Rightarrow> gm);
            gm2 = (case (p1_gender, p2_gender) of
                     (None, Some g2) \<Rightarrow> gm1(p1_id \<mapsto> opposite g2)
                   | _ \<Rightarrow> gm1)
        in gm2)"

text \<open>One sweep of \<^verbatim>\<open>PEOPLE.forEach\<close> inside the partnership loop.\<close>

definition inferPartnersPass :: "people_map \<Rightarrow> person list \<Rightarrow> gender_map \<Rightarrow> gender_map" where
  "inferPartnersPass pm people gm =
     foldl (\<lambda>g p. foldl (inferPartner pm (id' p)) g (pids p)) gm people"

text \<open>\<^verbatim>\<open>for (let i = 0; i < 5; i++)\<close>.\<close>

function inferPartnersLoop :: "people_map \<Rightarrow> person list \<Rightarrow> nat \<Rightarrow> gender_map \<Rightarrow> gender_map" where
  "inferPartnersLoop pm people i gm =
     (if i < 5 then inferPartnersLoop pm people (i + 1) (inferPartnersPass pm people gm)
      else gm)"
  by pat_completeness auto
termination
  by (relation "measure (\<lambda>(pm, people, i, gm). 5 - i)") auto

declare inferPartnersLoop.simps [simp del]

text \<open>
  \<^verbatim>\<open>buildLookups\<close> starts from the empty \<^verbatim>\<open>peopleMap\<close> and \<^verbatim>\<open>childrenMap\<close> and from the
  gender map the adapter has filled with the explicit values.
\<close>

definition buildLookups :: "person list \<Rightarrow> gender_map \<Rightarrow> store" where
  "buildLookups people explicitGenders =
     (let (pm, cm) = indexPeople people ([], []);
          cm' = sortChildren cm;
          gm1 = inferFromParents people explicitGenders;
          gm2 = inferPartnersLoop pm people 0 gm1
      in \<lparr>PEOPLE = people, peopleMap = pm, childrenMap = cm', genderMap = gm2\<rparr>)"

definition getGender :: "store \<Rightarrow> string \<Rightarrow> gender option" where
  "getGender st personId = genderMap st personId"

section \<open>String helpers of the runtime\<close>

text \<open>
  Characters are bytes here, so the helpers below are the Javascript ones on ASCII text:
  \<^verbatim>\<open>trim\<close> and \<^verbatim>\<open>\s\<close> know the six ASCII white-space characters and
  \<^verbatim>\<open>toUpperCase\<close> maps \<^verbatim>\<open>a\<close>--\<^verbatim>\<open>z\<close> to \<^verbatim>\<open>A\<close>--\<^verbatim>\<open>Z\<close>.
\<close>

definition is_space :: "char \<Rightarrow> bool" where
  "is_space c = (c = CHR '' '' \<or> c = CHR 0x09 \<or> c = CHR 0x0A \<or> c = CHR 0x0B \<or> c = CHR 0x0C \<or> c = CHR 0x0D)"

definition js_trim :: "string \<Rightarrow> string" where
  "js_trim s = rev (dropWhile is_space (rev (dropWhile is_space s)))"

definition to_upper :: "char \<Rightarrow> char" where
  "to_upper c = (if CHR ''a'' \<le> c \<and> c \<le> CHR ''z'' then char_of (of_char c - (32::nat)) else c)"

definition toUpperCase :: "string \<Rightarrow> string" where
  "toUpperCase s = map to_upper s"

text \<open>\<^verbatim>\<open>s.charAt(0)\<close>: the first character as a string, empty when there is none.\<close>

definition charAt0 :: "string \<Rightarrow> string" where
  "charAt0 s = take 1 s"

text \<open>\<^verbatim>\<open>s.split(/\s+/)\<close>: cut at every maximal run of white space.\<close>

function split_ws_from :: "string \<Rightarrow> string \<Rightarrow> string list" where
  "split_ws_from cur [] = [rev cur]"
| "split_ws_from cur (c # cs) =
     (if is_space c then rev cur # split_ws_from [] (dropWhile is_space cs)
      else split_ws_from (c # cur) cs)"
  by pat_completeness auto
termination
  by (relation "measure (\<lambda>(cur, s). length s)") (auto simp: le_imp_less_Suc length_dropWhile_le)

definition split_ws :: "string \<Rightarrow> string list" where
  "split_ws s = split_ws_from [] s"

text \<open>\<^verbatim>\<open>s.split('-')\<close> for a one-character separator.\<close>

fun split_on_from :: "char \<Rightarrow> string \<Rightarrow> string \<Rightarrow> string list" where
  "split_on_from sep cur [] = [rev cur]"
| "split_on_from sep cur (c # cs) =
     (if c = sep then rev cur # split_on_from sep [] cs else split_on_from sep (c # cur) cs)"

definition split_on :: "char \<Rightarrow> string \<Rightarrow> string list" where
  "split_on sep s = split_on_from sep [] s"

definition is_digit :: "char \<Rightarrow> bool" where
  "is_digit c = (CHR ''0'' \<le> c \<and> c \<le> CHR ''9'')"

definition digit_val :: "char \<Rightarrow> nat" where
  "digit_val c = of_char c - 48"

definition dec_value :: "string \<Rightarrow> nat" where
  "dec_value s = foldl (\<lambda>n c. 10 * n + digit_val c) 0 s"

section \<open>Objects used as dictionaries\<close>

text \<open>
  \<^verbatim>\<open>getAncestors\<close> returns a plain object from ids to depths.  It is an association list
  in creation order of the keys; \<^verbatim>\<open>for (let anc in a1)\<close> visits the keys that are array
  indices (canonical decimal numerals below \<open>2^32 - 1\<close>) first, in ascending numeric order,
  and then the other keys in creation order, as \<^verbatim>\<open>OrdinaryOwnPropertyKeys\<close> prescribes.
  Only own properties are modelled: ids are taken not to be names of properties of
  \<^verbatim>\<open>Object.prototype\<close>.
\<close>

type_synonym depths = "(string \<times> nat) list"

definition isArrayIndex :: "string \<Rightarrow> bool" where
  "isArrayIndex s =
     (s \<noteq> [] \<and> list_all is_digit s \<and> (s = ''0'' \<or> hd s \<noteq> CHR ''0'') \<and> dec_value s < 4294967295)"

definition for_in_keys :: "depths \<Rightarrow> string list" where
  "for_in_keys obj =
     map fst (sort_key (\<lambda>(k, v). dec_value k) (filter (\<lambda>(k, v). isArrayIndex k) obj)) @
     map fst (filter (\<lambda>(k, v). \<not> isArrayIndex k) obj)"

section \<open>The family around a person (\<^verbatim>\<open>getFamilySet\<close>)\<close>

definition MALE_ICON_SVG :: string where
  "MALE_ICON_SVG = ''<svg width=\"100%\" height=\"100%\" viewBox=\"0 0 24 24\" fill=\"#4A90E2\"><path d=\"M12 12c2.21 0 4-1.79 4-4s-1.79-4-4-4-4 1.79-4 4 1.79 4 4 4zm0 2c-2.67 0-8 1.34-8 4v2h16v-2c0-2.66-5.33-4-8-4z\"/></svg>''"

definition FEMALE_ICON_SVG :: string where
  "FEMALE_ICON_SVG = ''<svg width=\"100%\" height=\"100%\" viewBox=\"0 0 24 24\" fill=\"#E91E63\"><path d=\"M12 12c2.21 0 4-1.79 4-4s-1.79-4-4-4-4 1.79-4 4 1.79 4 4 4zm0 2c-2.67 0-8 1.34-8 4v2h16v-2c0-2.66-5.33-4-8-4z\"/></svg>''"

text \<open>
  A node handed to the drawing library: the copied person with the three display fields
  \<^verbatim>\<open>gender_icon_svg\<close>, \<^verbatim>\<open>_initials\<close> and \<^verbatim>\<open>_label\<close>.
\<close>

record 'a node_of = "'a person_of" +
  gender_icon_svg :: string
  initials :: string
  label :: string

type_synonym node = "string list node_of"

text \<open>\<^verbatim>\<open>parts.join(" ")\<close>.\<close>

fun intercalate_space :: "string list \<Rightarrow> string" where
  "intercalate_space [] = []"
| "intercalate_space [x] = x"
| "intercalate_space (x # y # rest) = x @ '' '' @ intercalate_space (y # rest)"

text \<open>\<^verbatim>\<open>addNode\<close>: copy the person under \<open>i\<close> into the family set unless it is there.\<close>

definition addNode :: "people_map \<Rightarrow> people_map \<Rightarrow> string \<Rightarrow> people_map" where
  "addNode pm familySet i =
     (case map_of pm i of
        Some p \<Rightarrow> if \<not> map_has familySet i then map_set i p familySet else familySet
      | None \<Rightarrow> familySet)"

definition collectFamily :: "store \<Rightarrow> string \<Rightarrow> person \<Rightarrow> people_map" where
  "collectFamily st centerId centerNode =
     (let pm = peopleMap st;
          fs0 = addNode pm [] centerId;
          fs1 = (case truthy (fid centerNode) of Some f \<Rightarrow> addNode pm fs0 f | None \<Rightarrow> fs0);
          fs2 = (case truthy (mid centerNode) of Some m \<Rightarrow> addNode pm fs1 m | None \<Rightarrow> fs1);
          fs3 = foldl (addNode pm) fs2 (pids centerNode);
          fs4 = (case map_of (childrenMap st) centerId of
                   Some children \<Rightarrow> foldl (addNode pm) fs3 children
                 | None \<Rightarrow> fs3)
      in fs4)"

text \<open>
  Step 3 of the callback of \<^verbatim>\<open>nodes.map\<close>: icon, initials and label from the gender,
  the name and the image reference of the node.
\<close>

definition displayFields :: "gender option \<Rightarrow> string \<Rightarrow> string \<Rightarrow> string \<times> string \<times> string" where
  "displayFields gender nodeName imageUrl =
     (let fullName = js_trim nodeName;
          parts = (if fullName \<noteq> [] then split_ws fullName else []);
          hasImage = (imageUrl \<noteq> [] \<and> js_trim imageUrl \<noteq> []);
          icon = (if \<not> hasImage
                  then (case gender of Some Male \<Rightarrow> MALE_ICON_SVG
                        | Some Female \<Rightarrow> FEMALE_ICON_SVG
                        | None \<Rightarrow> [])
                  else []);
          ini = (if \<not> hasImage \<and> gender = None
                 then (if length parts = 0 then ''?''
                       else if length parts = 1 then toUpperCase (charAt0 (parts ! 0))
                       else toUpperCase (charAt0 (parts ! 0) @ charAt0 (parts ! (length parts - 1))))
                 else []);
          lab = (if length parts \<le> 1 then fullName
                 else let firstNameFull = intercalate_space (butlast parts);
                          surnameInitial = toUpperCase (charAt0 (parts ! (length parts - 1)))
                      in firstNameFull @ ''.'' @ surnameInitial)
      in (icon, ini, lab))"

text \<open>
  The callback of \<^verbatim>\<open>nodes.map\<close>: drop the links that leave the set (steps 1 and 2),
  fill the display fields (step 3).
\<close>

definition sanitizeNode :: "store \<Rightarrow> string set \<Rightarrow> person \<Rightarrow> node" where
  "sanitizeNode st nodeIds n =
     (let pids1 = filter (\<lambda>pid. pid \<in> nodeIds) (pids n);
          fid1 = (case truthy (fid n) of
                    Some f \<Rightarrow> if f \<notin> nodeIds then None else fid n
                  | None \<Rightarrow> fid n);
          mid1 = (case truthy (mid n) of
                    Some m \<Rightarrow> if m \<notin> nodeIds then None else mid n
                  | None \<Rightarrow> mid n);
          (icon, ini, lab) = displayFields (getGender st (id' n)) (name n) (image_url n)
      in \<lparr>id' = id' n, name = name n, fid = fid1, mid = mid1, pids = pids1,
          Birth = Birth n, Death = Death n, Address = Address n, email = email n,
          phone = phone n, note' = note' n, image_url = image_url n,
          gender_icon_svg = icon, initials = ini, label = lab\<rparr>)"

definition getFamilySet :: "store \<Rightarrow> string \<Rightarrow> node list" where
  "getFamilySet st centerId =
     (case map_of (peopleMap st) centerId of
        None \<Rightarrow> []
      | Some centerNode \<Rightarrow>
          let familySet = collectFamily st centerId centerNode;
              nodes = map snd familySet;
              nodeIds = set (map id' nodes)
          in map (sanitizeNode st nodeIds) nodes)"

section \<open>Ancestors and paths\<close>

text \<open>
  \<^verbatim>\<open>getAncestors\<close>: the \<^verbatim>\<open>while (queue.length > 0)\<close> loop as a recursion on the state
  (queue, visited set, result object).  Each run of the body either drops a queue entry
  without touching the unvisited people, or visits a person of \<^verbatim>\<open>peopleMap\<close> for the
  first time; this is the termination order.
\<close>

function getAncestors_loop ::
  "people_map \<Rightarrow> (string \<times> nat) list \<Rightarrow> string set \<Rightarrow> depths \<Rightarrow> depths" where
  "getAncestors_loop pm [] visited ancestors = ancestors"
| "getAncestors_loop pm ((cid, depth) # rest) visited ancestors =
     (if cid \<in> visited then getAncestors_loop pm rest visited ancestors
      else
        case map_of pm cid of
          None \<Rightarrow> getAncestors_loop pm rest (insert cid visited) ancestors
        | Some person \<Rightarrow>
            let ancestors1 = map_set cid depth ancestors;
                queue1 = (case truthy (fid person) of
                            Some f \<Rightarrow> rest @ [(f, depth + 1)]
                          | None \<Rightarrow> rest);
                queue2 = (case truthy (mid person) of
                            Some m \<Rightarrow> queue1 @ [(m, depth + 1)]
                          | None \<Rightarrow> queue1)
            in getAncestors_loop pm queue2 (insert cid visited) ancestors1)"
  by pat_completeness auto
termination
proof (relation "measures [\<lambda>(pm, queue, visited, ancestors). card (fst ` set pm - visited),
                           \<lambda>(pm, queue, visited, ancestors). length queue]", goal_cases)
  case 1
  then show ?case by simp
next
  case (2 pm cid depth rest visited ancestors)
  then show ?case by simp
next
  case (3 pm cid depth rest visited ancestors)
  then have "cid \<notin> fst ` set pm"
    by (simp add: map_of_eq_None_iff)
  then have "fst ` set pm - insert cid visited = fst ` set pm - visited"
    by auto
  then show ?case by simp
next
  case (4 pm cid depth rest visited ancestors person ancestors1 queue1 queue2)
  then have "cid \<in> fst ` set pm - visited"
    by (auto dest: map_of_SomeD intro: rev_image_eqI)
  then have "card (fst ` set pm - insert cid visited) < card (fst ` set pm - visited)"
    by (metis Diff_insert card_Diff1_less finite_Diff finite_imageI finite_set)
  then show ?case by simp
qed

declare getAncestors_loop.simps [simp del]

definition getAncestors :: "store \<Rightarrow> string \<Rightarrow> depths" where
  "getAncestors st i = getAncestors_loop (peopleMap st) [(i, 0)] {} []"

text \<open>
  \<^verbatim>\<open>getAncestorPath\<close>: the same walk with whole paths in the queue; \<open>None\<close> is the
  \<^verbatim>\<open>null\<close> returned when the queue runs empty.
\<close>

function getAncestorPath_loop ::
  "people_map \<Rightarrow> string \<Rightarrow> (string \<times> string list) list \<Rightarrow> string set \<Rightarrow> string list option" where
  "getAncestorPath_loop pm targetAncestor [] visited = None"
| "getAncestorPath_loop pm targetAncestor ((cid, path) # rest) visited =
     (if cid \<in> visited then getAncestorPath_loop pm targetAncestor rest visited
      else if cid = targetAncestor then Some path
      else
        case map_of pm cid of
          None \<Rightarrow> getAncestorPath_loop pm targetAncestor rest (insert cid visited)
        | Some p \<Rightarrow>
            let queue1 = (case truthy (fid p) of
                            Some f \<Rightarrow> rest @ [(f, path @ [f])]
                          | None \<Rightarrow> rest);
                queue2 = (case truthy (mid p) of
                            Some m \<Rightarrow> queue1 @ [(m, path @ [m])]
                          | None \<Rightarrow> queue1)
            in getAncestorPath_loop pm targetAncestor queue2 (insert cid visited))"
  by pat_completeness auto
termination
proof (relation "measures [\<lambda>(pm, target, queue, visited). card (fst ` set pm - visited),
                           \<lambda>(pm, target, queue, visited). length queue]", goal_cases)
  case 1
  then show ?case by simp
next
  case (2 pm target cid path rest visited)
  then show ?case by simp
next
  case (3 pm target cid path rest visited)
  then have "cid \<notin> fst ` set pm"
    by (simp add: map_of_eq_None_iff)
  then have "fst ` set pm - insert cid visited = fst ` set pm - visited"
    by auto
  then show ?case by simp
next
  case (4 pm target cid path rest visited p queue1 queue2)
  then have "cid \<in> fst ` set pm - visited"
    by (auto dest: map_of_SomeD intro: rev_image_eqI)
  then have "card (fst ` set pm - insert cid visited) < card (fst ` set pm - visited)"
    by (metis Diff_insert card_Diff1_less finite_Diff finite_imageI finite_set)
  then show ?case by simp
qed

declare getAncestorPath_loop.simps [simp del]

definition getAncestorPath :: "store \<Rightarrow> string \<Rightarrow> string \<Rightarrow> string list option" where
  "getAncestorPath st startId targetAncestor =
     getAncestorPath_loop (peopleMap st) targetAncestor [(startId, [startId])] {}"

text \<open>
  \<^verbatim>\<open>getDescendantPath\<close> walks \<^verbatim>\<open>childrenMap\<close>; an id without an entry has no children
  (\<^verbatim>\<open>childrenMap.get(current.id) || []\<close>).
\<close>

function getDescendantPath_loop ::
  "children_map \<Rightarrow> string \<Rightarrow> (string \<times> string list) list \<Rightarrow> string set \<Rightarrow> string list option" where
  "getDescendantPath_loop cm targetId [] visited = None"
| "getDescendantPath_loop cm targetId ((cid, path) # rest) visited =
     (if cid \<in> visited then getDescendantPath_loop cm targetId rest visited
      else if cid = targetId then Some path
      else
        let children = (case map_of cm cid of Some cs \<Rightarrow> cs | None \<Rightarrow> []);
            queue1 = rest @ map (\<lambda>child. (child, path @ [child])) children
        in getDescendantPath_loop cm targetId queue1 (insert cid visited))"
  by pat_completeness auto
termination
proof (relation "measures [\<lambda>(cm, target, queue, visited). card (fst ` set cm - visited),
                           \<lambda>(cm, target, queue, visited). length queue]", goal_cases)
  case 1
  then show ?case by simp
next
  case (2 cm target cid path rest visited)
  then show ?case by simp
next
  case (3 cm target cid path rest visited children queue1)
  show ?case
  proof (cases "map_of cm cid")
    case None
    then have "cid \<notin> fst ` set cm"
      by (simp add: map_of_eq_None_iff)
    then have "fst ` set cm - insert cid visited = fst ` set cm - visited"
      by auto
    with 3 None show ?thesis by simp
  next
    case (Some cs)
    with 3 have "cid \<in> fst ` set cm - visited"
      by (auto dest: map_of_SomeD intro: rev_image_eqI)
    then have "card (fst ` set cm - insert cid visited) < card (fst ` set cm - visited)"
      by (metis Diff_insert card_Diff1_less finite_Diff finite_imageI finite_set)
    then show ?thesis by simp
  qed
qed

declare getDescendantPath_loop.simps [simp del]

definition getDescendantPath :: "store \<Rightarrow> string \<Rightarrow> string \<Rightarrow> string list option" where
  "getDescendantPath st ancestorId targetId =
     getDescendantPath_loop (childrenMap st) targetId [(ancestorId, [ancestorId])] {}"

section \<open>Kinship (\<^verbatim>\<open>findRelationship\<close>)\<close>

text \<open>
  The \<^verbatim>\<open>for (let anc in a1)\<close> loop with its two variables; \<^verbatim>\<open>Infinity\<close> is \<open>\<infinity>\<close>.
  Where \<^verbatim>\<open>a1[anc]\<close> is undefined the sum is \<^verbatim>\<open>NaN\<close> and the comparison fails.
\<close>

fun bestAncestor_loop ::
  "string list \<Rightarrow> depths \<Rightarrow> depths \<Rightarrow> string option \<times> enat \<Rightarrow> string option \<times> enat" where
  "bestAncestor_loop [] a1 a2 (bestAncestor, bestDistance) = (bestAncestor, bestDistance)"
| "bestAncestor_loop (anc # rest) a1 a2 (bestAncestor, bestDistance) =
     (case map_of a2 anc of
        None \<Rightarrow> bestAncestor_loop rest a1 a2 (bestAncestor, bestDistance)
      | Some d2 \<Rightarrow>
          (case map_of a1 anc of
             None \<Rightarrow> bestAncestor_loop rest a1 a2 (bestAncestor, bestDistance)
           | Some d1 \<Rightarrow>
               let dist = d1 + d2
               in if enat dist < bestDistance
                  then bestAncestor_loop rest a1 a2 (Some anc, enat dist)
                  else bestAncestor_loop rest a1 a2 (bestAncestor, bestDistance)))"

definition bestAncestor :: "store \<Rightarrow> string \<Rightarrow> string \<Rightarrow> string option" where
  "bestAncestor st id1 id2 =
     (let a1 = getAncestors st id1;
          a2 = getAncestors st id2
      in fst (bestAncestor_loop (for_in_keys a1) a1 a2 (None, \<infinity>)))"

definition interpretHinduRelation ::
  "store \<Rightarrow> string \<Rightarrow> string \<Rightarrow> string list option \<Rightarrow> string list option \<Rightarrow> string" where
  "interpretHinduRelation st homeId targetId up down =
     (case (up, down) of
        (Some upPath, Some downPath) \<Rightarrow>
          let u = int (length upPath) - 1;
              d = int (length downPath) - 1
          in (case (map_of (peopleMap st) homeId, map_of (peopleMap st) targetId) of
                (Some homePerson, Some targetPerson) \<Rightarrow>
                  let targetGender = getGender st targetId
                  in if d = 0 then
                       (if u = 1 then
                          (if fid homePerson = Some targetId then ''Tandri (Father)''
                           else if mid homePerson = Some targetId then ''Talli (Mother)''
                           else ''Parent'')
                        else if u = 2 then
                          (let parentId = upPath ! 1
                           in if fid homePerson = Some parentId
                              then (if targetGender = Some Male then ''Tata (Paternal Grandfather)''
                                    else ''Nayanamma (Paternal Grandmother)'')
                              else (if targetGender = Some Male then ''Tata (Maternal Grandfather)''
                                    else ''Ammamma (Maternal Grandmother)''))
                        else if u = 3 then ''Great Grandparent''
                        else ''Ancestor'')
                     else if u = 0 then
                       (if d = 1 then
                          (case targetGender of Some Male \<Rightarrow> ''Koduku (Son)''
                           | Some Female \<Rightarrow> ''Kumarthe (Daughter)'' | None \<Rightarrow> ''Child'')
                        else if d = 2 then
                          (case targetGender of Some Male \<Rightarrow> ''Manavadu (Grandson)''
                           | Some Female \<Rightarrow> ''Manavaralu (Granddaughter)'' | None \<Rightarrow> ''Grandchild'')
                        else if d = 3 then
                          (case targetGender of Some Male \<Rightarrow> ''Muni Manavadu (Great Grandson)''
                           | Some Female \<Rightarrow> ''Muni Manavaralu (Great Granddaughter)''
                           | None \<Rightarrow> ''Great Grandchild'')
                        else ''Descendant'')
                     else if u = 1 \<and> d = 1 then
                       (if targetGender = Some Male then ''Sodharudu (Brother)'' else ''Sodari (Sister)'')
                     else if u = 2 \<and> d = 1 then
                       (let parentId = upPath ! 1
                        in if fid homePerson = Some parentId then
                             (case targetGender of
                                Some Male \<Rightarrow> ''Pedananna / Chinnananna (Paternal Uncle)''
                              | Some Female \<Rightarrow> ''Atta (Paternal Aunt)''
                              | None \<Rightarrow> ''Uncle / Aunt'')
                           else if mid homePerson = Some parentId then
                             (case targetGender of
                                Some Male \<Rightarrow> ''Mama (Maternal Uncle)''
                              | Some Female \<Rightarrow> ''Peddamma / Pinnamma (Maternal Aunt)''
                              | None \<Rightarrow> ''Uncle / Aunt'')
                           else ''Uncle / Aunt'')
                     else if u = 1 \<and> d = 2 then
                       (if targetGender = Some Male then ''Menalludu (Nephew)'' else ''Menakodalu (Niece)'')
                     else if u = 2 \<and> d = 2 then ''Cousin''
                     else ''Bandhuvu (Relative)''
              | _ \<Rightarrow> ''Unknown'')
      | _ \<Rightarrow> ''Bandhuvu (Relative)'')"

definition findRelationship :: "store \<Rightarrow> string \<Rightarrow> string \<Rightarrow> string" where
  "findRelationship st id1 id2 =
     (if id1 = [] \<or> id2 = [] then ''Unknown''
      else if id1 = id2 then ''Self''
      else if (case map_of (peopleMap st) id1 of
                 Some person1 \<Rightarrow> id2 \<in> set (pids person1)
               | None \<Rightarrow> False)
      then (case getGender st id2 of
              Some Male \<Rightarrow> ''Bhartha (Husband)''
            | Some Female \<Rightarrow> ''Bharya (Wife)''
            | None \<Rightarrow> ''Spouse'')
      else
        case truthy (bestAncestor st id1 id2) of
          None \<Rightarrow> ''No direct blood relation''
        | Some anc \<Rightarrow>
            let pathUp = getAncestorPath st id1 anc;
                pathDown = getDescendantPath st anc id2
            in interpretHinduRelation st id1 id2 pathUp pathDown)"

section \<open>Dates\<close>

text \<open>
  The code reads a \<^verbatim>\<open>Date\<close> only through its local calendar fields, so a date is the
  number of its local calendar day, counted from 1 January 1970.  The two conversions are
  the usual ones of the proleptic Gregorian calendar, with months 1 to 12.
\<close>

type_synonym jsdate = int

definition days_from_civil :: "int \<Rightarrow> int \<Rightarrow> int \<Rightarrow> int" where
  "days_from_civil y m d =
     (let y1 = (if m \<le> 2 then y - 1 else y);
          era = y1 div 400;
          yoe = y1 - era * 400;
          doy = (153 * (if m > 2 then m - 3 else m + 9) + 2) div 5 + d - 1;
          doe = yoe * 365 + yoe div 4 - yoe div 100 + doy
      in era * 146097 + doe - 719468)"

definition civil_from_days :: "int \<Rightarrow> int \<times> int \<times> int" where
  "civil_from_days z0 =
     (let z = z0 + 719468;
          era = z div 146097;
          doe = z - era * 146097;
          yoe = (doe - doe div 1460 + doe div 36524 - doe div 146096) div 365;
          y = yoe + era * 400;
          doy = doe - (365 * yoe + yoe div 4 - yoe div 100);
          mp = (5 * doy + 2) div 153;
          d = doy - (153 * mp + 2) div 5 + 1;
          m = (if mp < 10 then mp + 3 else mp - 9)
      in (if m \<le> 2 then y + 1 else y, m, d))"

definition getFullYear :: "jsdate \<Rightarrow> int" where
  "getFullYear t = fst (civil_from_days t)"

text \<open>\<^verbatim>\<open>getMonth\<close> counts from 0.\<close>

definition getMonth :: "jsdate \<Rightarrow> int" where
  "getMonth t = fst (snd (civil_from_days t)) - 1"

definition getDate :: "jsdate \<Rightarrow> int" where
  "getDate t = snd (snd (civil_from_days t))"

text \<open>\<^verbatim>\<open>getDay\<close>: 0 is Sunday; 1 January 1970 was a Thursday.\<close>

definition getDay :: "jsdate \<Rightarrow> int" where
  "getDay t = (t + 4) mod 7"

text \<open>
  \<^verbatim>\<open>MakeDay\<close> of the language definition: months beyond 0 to 11 carry into the year, the
  day of the month counts on from the first of the month.
\<close>

definition makeDay :: "int \<Rightarrow> int \<Rightarrow> int \<Rightarrow> jsdate" where
  "makeDay year month dt = days_from_civil (year + month div 12) (month mod 12 + 1) 1 + dt - 1"

text \<open>
  \<^verbatim>\<open>new Date(year, month, day)\<close>: years 0 to 99 mean 1900 to 1999, and a date more than
  \<open>10^8\<close> days from the epoch is an invalid date (\<open>None\<close>).
\<close>

definition newDate :: "int \<Rightarrow> int \<Rightarrow> int \<Rightarrow> jsdate option" where
  "newDate year month dt =
     (let t = makeDay (if 0 \<le> year \<and> year \<le> 99 then 1900 + year else year) month dt
      in if \<bar>t\<bar> \<le> 100000000 then Some t else None)"

text \<open>\<^verbatim>\<open>d.setDate(n)\<close>.\<close>

definition setDate :: "jsdate \<Rightarrow> int \<Rightarrow> jsdate" where
  "setDate t n = makeDay (getFullYear t) (getMonth t) n"

text \<open>\<^verbatim>\<open>a % b\<close> on integers: the remainder has the sign of \<open>a\<close>.\<close>

definition js_rem :: "int \<Rightarrow> int \<Rightarrow> int" where
  "js_rem a b = sgn a * (\<bar>a\<bar> mod \<bar>b\<bar>)"

text \<open>
  \<^verbatim>\<open>parseInt(s, 10)\<close>: leading white space, an optional sign, then the longest run of
  digits; \<open>None\<close> is \<^verbatim>\<open>NaN\<close>.  \<^verbatim>\<open>String(n)\<close> of an integer is its decimal numeral.
\<close>

definition parseInt :: "string \<Rightarrow> int option" where
  "parseInt s =
     (let s1 = dropWhile is_space s;
          neg = (s1 \<noteq> [] \<and> hd s1 = CHR ''-'');
          s2 = (if s1 \<noteq> [] \<and> (hd s1 = CHR ''-'' \<or> hd s1 = CHR ''+'') then tl s1 else s1);
          ds = takeWhile is_digit s2
      in if ds = [] then None
         else Some (if neg then - int (dec_value ds) else int (dec_value ds)))"

fun show_nat :: "nat \<Rightarrow> string" where
  "show_nat n =
     (if n < 10 then [char_of (48 + n)] else show_nat (n div 10) @ [char_of (48 + n mod 10)])"

declare show_nat.simps [simp del]

definition show_int :: "int \<Rightarrow> string" where
  "show_int i = (if i < 0 then CHR ''-'' # show_nat (nat (- i)) else show_nat (nat i))"

definition show_number :: "int option \<Rightarrow> string" where
  "show_number v = (case v of None \<Rightarrow> ''NaN'' | Some i \<Rightarrow> show_int i)"

definition months :: "string \<Rightarrow> int option" where
  "months k =
     map_of [(''JAN'', 0), (''FEB'', 1), (''MAR'', 2), (''APR'', 3), (''MAY'', 4), (''JUN'', 5),
             (''JUL'', 6), (''AUG'', 7), (''SEP'', 8), (''OCT'', 9), (''NOV'', 10), (''DEC'', 11)] k"

definition WEEKDAYS :: "string list" where
  "WEEKDAYS = [''SUNDAY'', ''MONDAY'', ''TUESDAY'', ''WEDNESDAY'', ''THURSDAY'', ''FRIDAY'', ''SATURDAY'']"

definition MONTH_ABBR :: "string list" where
  "MONTH_ABBR = [''JAN'', ''FEB'', ''MAR'', ''APR'', ''MAY'', ''JUN'',
                 ''JUL'', ''AUG'', ''SEP'', ''OCT'', ''NOV'', ''DEC'']"

text \<open>
  The three helpers that read a year.  Each takes the current date \<^verbatim>\<open>new Date()\<close> as
  \<open>now\<close>, and each has its own copy of the pivot rule, as in the source.
\<close>

definition formatDate :: "jsdate \<Rightarrow> string \<Rightarrow> string" where
  "formatDate now dateStr =
     (if dateStr = [] then []
      else
        let parts = split_on CHR ''-'' dateStr
        in if length parts = 3 then
             let day = parts ! 0;
                 month = parts ! 1;
                 year = parseInt (parts ! 2);
                 year1 = (case year of
                            None \<Rightarrow> None
                          | Some y \<Rightarrow>
                              if y < 100 then
                                let currentYear = js_rem (getFullYear now) 100;
                                    pivot = currentYear + 10
                                in Some (if y > pivot then 1900 + y else 2000 + y)
                              else Some y)
             in day @ ''-'' @ month @ ''-'' @ show_number year1
           else dateStr)"

definition getAgeFromBirth :: "jsdate \<Rightarrow> string \<Rightarrow> int option" where
  "getAgeFromBirth now birthStr =
     (if birthStr = [] \<or> js_trim birthStr = [] then None
      else
        let parts = split_on CHR ''-'' (js_trim birthStr)
        in if length parts \<noteq> 3 then None
           else
             let day = parseInt (parts ! 0);
                 monthKey = take 3 (toUpperCase (parts ! 1));
                 month = months monthKey
             in case (month, day) of
                  (Some mo, Some dd) \<Rightarrow>
                    let year = parseInt (parts ! 2);
                        year1 = (case year of
                                   None \<Rightarrow> None
                                 | Some y \<Rightarrow>
                                     if y < 100 then
                                       let currentYear = js_rem (getFullYear now) 100;
                                           pivot = currentYear + 10
                                       in Some (if y > pivot then 1900 + y else 2000 + y)
                                     else Some y)
                    in (case (case year1 of None \<Rightarrow> None | Some y \<Rightarrow> newDate y mo dd) of
                          None \<Rightarrow> None
                        | Some birth \<Rightarrow>
                            let today = now;
                                age = getFullYear today - getFullYear birth;
                                m = getMonth today - getMonth birth;
                                age1 = (if m < 0 \<or> (m = 0 \<and> getDate today < getDate birth)
                                        then age - 1 else age)
                            in if age1 < 0 \<or> age1 > 150 then None else Some age1)
                | _ \<Rightarrow> None)"

definition getMonthDayFromBirth :: "string \<Rightarrow> (int \<times> int) option" where
  "getMonthDayFromBirth birthStr =
     (if birthStr = [] \<or> js_trim birthStr = [] then None
      else
        let parts = split_on CHR ''-'' (js_trim birthStr)
        in if length parts \<noteq> 3 then None
           else
             let day = parseInt (parts ! 0);
                 monthKey = take 3 (toUpperCase (parts ! 1));
                 month = months monthKey
             in case (month, day) of
                  (Some mo, Some dd) \<Rightarrow> if dd < 1 \<or> dd > 31 then None else Some (mo, dd)
                | _ \<Rightarrow> None)"

definition getBirthYearFromBirth :: "jsdate \<Rightarrow> string \<Rightarrow> int option" where
  "getBirthYearFromBirth now birthStr =
     (if birthStr = [] \<or> js_trim birthStr = [] then None
      else
        let parts = split_on CHR ''-'' (js_trim birthStr)
        in if length parts \<noteq> 3 then None
           else
             case parseInt (parts ! 2) of
               None \<Rightarrow> None
             | Some y \<Rightarrow>
                 if y < 100 then
                   let currentYear = js_rem (getFullYear now) 100;
                       pivot = currentYear + 10
                   in Some (if y > pivot then 1900 + y else 2000 + y)
                 else Some y)"

section \<open>Upcoming birthdays (\<^verbatim>\<open>getUpcomingBirthdays\<close>)\<close>

record birthday_person =
  bp_id :: string
  bp_name :: string
  bp_phone :: string
  ageAtDisplay :: "int option"

record birthday_entry =
  date :: jsdate
  dateStr :: string
  weekday :: string
  persons :: "birthday_person list"

type_synonym by_key = "(string \<times> birthday_entry) list"

text \<open>The callback of \<^verbatim>\<open>PEOPLE.forEach\<close> for the day with the given key.\<close>

definition addBirthday :: "jsdate \<Rightarrow> string \<Rightarrow> int \<Rightarrow> int \<Rightarrow> int \<Rightarrow> by_key \<Rightarrow> person \<Rightarrow> by_key" where
  "addBirthday now key day month year byKey p =
     (case getMonthDayFromBirth (Birth p) of
        None \<Rightarrow> byKey
      | Some (mo, dd) \<Rightarrow>
          if mo \<noteq> month \<or> dd \<noteq> day then byKey
          else
            let birthYear = getBirthYearFromBirth now (Birth p);
                age = (case birthYear of Some b \<Rightarrow> Some (year - b) | None \<Rightarrow> None);
                item = \<lparr>bp_id = id' p,
                        bp_name = (if js_trim (name p) = [] then ''Unknown'' else js_trim (name p)),
                        bp_phone = js_trim (phone p),
                        ageAtDisplay = (case age of
                                          Some a \<Rightarrow> if a \<ge> 0 \<and> a \<le> 150 then Some a else None
                                        | None \<Rightarrow> None)\<rparr>
            in case map_of byKey key of
                 Some entry \<Rightarrow> map_set key (entry\<lparr>persons := persons entry @ [item]\<rparr>) byKey
               | None \<Rightarrow> byKey)"

text \<open>The body of the \<^verbatim>\<open>for\<close> loop for the day \<open>i\<close> days after today.\<close>

definition birthdaysOfDay :: "person list \<Rightarrow> jsdate \<Rightarrow> int \<Rightarrow> by_key \<Rightarrow> by_key" where
  "birthdaysOfDay people today i byKey =
     (let d = setDate today (getDate today + i);
          day = getDate d;
          month = getMonth d;
          year = getFullYear d;
          dateStr = show_int day @ ''-'' @ MONTH_ABBR ! nat month @ ''-'' @ show_int year;
          weekday = WEEKDAYS ! nat (getDay d);
          key = dateStr;
          byKey1 = (if \<not> map_has byKey key
                    then map_set key \<lparr>date = d, dateStr = dateStr, weekday = weekday, persons = []\<rparr> byKey
                    else byKey)
      in foldl (addBirthday today key day month year) byKey1 people)"

function birthdaysLoop :: "person list \<Rightarrow> jsdate \<Rightarrow> int \<Rightarrow> int \<Rightarrow> by_key \<Rightarrow> by_key" where
  "birthdaysLoop people today daysAhead i byKey =
     (if i < daysAhead
      then birthdaysLoop people today daysAhead (i + 1) (birthdaysOfDay people today i byKey)
      else byKey)"
  by pat_completeness auto
termination
  by (relation "measure (\<lambda>(people, today, daysAhead, i, byKey). nat (daysAhead - i))") auto

declare birthdaysLoop.simps [simp del]

text \<open>
  \<^verbatim>\<open>Object.keys(byKey).sort().map(k => byKey[k]).filter(...)\<close>: the keys are sorted as
  strings, then the entries without persons are dropped.
\<close>

definition getUpcomingBirthdays :: "store \<Rightarrow> jsdate \<Rightarrow> int \<Rightarrow> birthday_entry list" where
  "getUpcomingBirthdays st today daysAhead =
     (let byKey = birthdaysLoop (PEOPLE st) today daysAhead 0 [];
          keys = sort (map fst byKey);
          entries = concat (map (\<lambda>k. case map_of byKey k of Some e \<Rightarrow> [e] | None \<Rightarrow> []) keys)
      in filter (\<lambda>entry. length (persons entry) > 0) entries)"

section \<open>A small data set\<close>

text \<open>
  The object the adapter creates for a person (\<^verbatim>\<open>newPeopleMap.set(p.person_id, {...})\<close>),
  with the links the family pass then fills in.
\<close>

definition newPerson :: "string \<Rightarrow> string \<Rightarrow> string \<Rightarrow> string \<Rightarrow> string list \<Rightarrow> string \<Rightarrow> person" where
  "newPerson i n f m ps b =
     \<lparr>id' = i, name = n, fid = Some f, mid = Some m, pids = ps, Birth = b, Death = [],
      Address = [], email = [], phone = [], note' = [], image_url = []\<rparr>"

text \<open>
  Two families that exchanged a daughter each: \<open>P\<close> married \<open>M\<close>, the daughter of \<open>Q\<close>,
  and \<open>Q\<close> married \<open>N\<close>, the daughter of \<open>P\<close>.  \<open>X\<close> is the child of \<open>P\<close> and
  \<open>M\<close>, \<open>Y\<close> the child of \<open>Q\<close> and \<open>N\<close>.  \<open>X\<close> lists two partners, \<open>W\<close>
  and a \<open>Z\<close> who is not in the data; the father \<open>V\<close> of \<open>W\<close> is not in the
  data either.
\<close>

definition family :: "person list" where
  "family =
     [newPerson ''P'' ''Pavan Rao'' [] [] [''M''] ''10-MAY-40'',
      newPerson ''Q'' ''Qadir Rao'' [] [] [''N''] ''9-JAN-38'',
      newPerson ''M'' ''Mala Rao'' ''Q'' [] [''P''] ''10-JAN-62'',
      newPerson ''N'' ''Nila Rao'' ''P'' [] [''Q''] ''1-FEB-1965'',
      newPerson ''Y'' ''Yash Rao'' ''Q'' ''N'' [] ''9-JAN-90'',
      newPerson ''X'' ''Xena Rao'' ''P'' ''M'' [''W'', ''Z''] ''10-JAN-85'',
      newPerson ''W'' ''Wasim'' ''V'' [] [''X''] []]"

definition familyGenders :: gender_map where
  "familyGenders = [''X'' \<mapsto> Female, ''Y'' \<mapsto> Male]"

definition familyStore :: store where
  "familyStore = buildLookups family familyGenders"


text \<open>
  A malformed data set: \<open>A\<close> and \<open>B\<close> are partners of each other and each is
  recorded as the father of the other.
\<close>

definition cyclicPeople :: "person list" where
  "cyclicPeople =
     [newPerson ''A'' ''Asha'' ''B'' [] [''B''] [],
      newPerson ''B'' ''Bala'' ''A'' [] [''A''] []]"

definition cyclicStore :: store where
  "cyclicStore = buildLookups cyclicPeople Map.empty"

section \<open>Properties of the lookups\<close>

text \<open>
  The children a parent id gets from the record list, in record order: the arrays of
  \<^verbatim>\<open>childrenMap\<close> before sorting.
\<close>

definition childrenOfRaw :: "string \<Rightarrow> person list \<Rightarrow> string list" where
  "childrenOfRaw k people =
     concat (map (\<lambda>p. (if truthy (fid p) = Some k then [id' p] else []) @
                      (if truthy (mid p) = Some k then [id' p] else [])) people)"

lemma map_of_map_set: "map_of (map_set k v m) = (map_of m)(k \<mapsto> v)"
  by (simp add: map_set_def update_conv')

lemma map_of_addChild:
  "map_of (addChild k c cm) =
     (map_of cm)(k \<mapsto> (case map_of cm k of None \<Rightarrow> [] | Some cs \<Rightarrow> cs) @ [c])"
  by (auto simp: addChild_def map_has_def map_of_map_set Let_def split: option.splits)

lemma map_of_indexPeople_children:
  "map_of (snd (indexPeople people (pm, cm))) k =
     (if map_of cm k = None \<and> childrenOfRaw k people = [] then None
      else Some ((case map_of cm k of None \<Rightarrow> [] | Some cs \<Rightarrow> cs) @ childrenOfRaw k people))"
proof (induction people arbitrary: pm cm)
  case Nil
  then show ?case by (auto simp: childrenOfRaw_def)
next
  case (Cons p rest)
  show ?case
    by (cases "truthy (fid p)"; cases "truthy (mid p)")
       (auto simp: Cons.IH childrenOfRaw_def map_of_addChild Let_def split: option.splits)
qed

lemma map_of_sortChildren: "map_of (sortChildren cm) k = map_option sort (map_of cm k)"
  by (induction cm) (auto simp: sortChildren_def)

lemma childrenMap_buildLookups:
  "map_of (childrenMap (buildLookups people g)) k =
     (if childrenOfRaw k people = [] then None else Some (sort (childrenOfRaw k people)))"
proof -
  obtain pm cm where ic: "indexPeople people ([], []) = (pm, cm)"
    by (cases "indexPeople people ([], [])")
  have "map_of cm k = (if childrenOfRaw k people = [] then None else Some (childrenOfRaw k people))"
    using map_of_indexPeople_children[of people "[]" "[]" k] ic by simp
  then show ?thesis
    by (simp add: buildLookups_def ic map_of_sortChildren)
qed

lemma set_childrenOfRaw:
  "set (childrenOfRaw k people) =
     {id' p | p. p \<in> set people \<and> (truthy (fid p) = Some k \<or> truthy (mid p) = Some k)}"
  by (auto simp: childrenOfRaw_def)

lemma distinct_childrenOfRaw:
  assumes "distinct (map id' people)"
    and "\<forall>p \<in> set people. truthy (fid p) = None \<or> truthy (fid p) \<noteq> truthy (mid p)"
  shows "distinct (childrenOfRaw k people)"
  using assms
proof (induction people)
  case Nil
  then show ?case by (simp add: childrenOfRaw_def)
next
  case (Cons p rest)
  have "distinct (childrenOfRaw k rest)" using Cons by simp
  moreover have "id' p \<notin> set (childrenOfRaw k rest)"
    using Cons.prems(1) by (auto simp: set_childrenOfRaw)
  moreover have "childrenOfRaw k (p # rest) =
      (if truthy (fid p) = Some k then [id' p] else []) @
      (if truthy (mid p) = Some k then [id' p] else []) @ childrenOfRaw k rest"
    by (simp add: childrenOfRaw_def)
  ultimately show ?case using Cons.prems(2) by auto
qed

text \<open>
  C3.  For every store built by \<^const>\<open>buildLookups\<close> and every parent id, the children
  list is sorted ascending in lexicographic string order.  It is free of duplicates when
  the records have distinct ids and no record names the same person as father and as
  mother; nothing in \<^verbatim>\<open>addChild\<close> removes a repeated child.
\<close>

theorem childrenOf_sorted_distinct:
  "map_of (childrenMap (buildLookups people g)) parent = Some children \<Longrightarrow>
   sorted children \<and>
   (distinct (map id' people) \<and>
    (\<forall>p \<in> set people. truthy (fid p) = None \<or> truthy (fid p) \<noteq> truthy (mid p))
      \<longrightarrow> distinct children)"
  by (auto simp: childrenMap_buildLookups distinct_childrenOfRaw split: if_splits)

lemma childrenOfRaw_family_Q: "childrenOfRaw ''Q'' family = [''M'', ''Y'']"
  by (simp add: childrenOfRaw_def family_def newPerson_def)

theorem childrenOf_sorted_distinct_witness:
  "map_of (childrenMap (buildLookups family familyGenders)) ''Q'' = Some [''M'', ''Y''] \<and>
   sorted [''M'', ''Y''] \<and> distinct [''M'', ''Y'']"
proof -
  have h: "map_of (childrenMap (buildLookups family familyGenders)) ''Q'' = Some [''M'', ''Y'']"
    by (simp add: childrenMap_buildLookups childrenOfRaw_family_Q less_eq_char_def)
  have d: "distinct (map id' family) \<and>
    (\<forall>p \<in> set family. truthy (fid p) = None \<or> truthy (fid p) \<noteq> truthy (mid p))"
    by (simp add: family_def newPerson_def)
  from childrenOf_sorted_distinct[OF h] d h show ?thesis by simp
qed

text \<open>
  The claim as stated, without the two conditions, fails: a record whose father and
  mother are the same id is pushed twice onto that parent's list.
\<close>

theorem childrenOf_duplicate_counterexample:
  "map_of (childrenMap (buildLookups [newPerson ''c'' ''C'' ''p'' ''p'' [] []] Map.empty)) ''p''
     = Some [''c'', ''c''] \<and> \<not> distinct [''c'', ''c'']"
  by (simp add: childrenMap_buildLookups childrenOfRaw_def newPerson_def)

section \<open>Gender inference keeps explicit values\<close>

lemma inferFromParents_keeps: "gm x = Some v \<Longrightarrow> inferFromParents people gm x = Some v"
  by (induction people arbitrary: gm) (auto simp: Let_def split: option.splits)

lemma inferPartner_keeps: "gm x = Some v \<Longrightarrow> inferPartner pm a gm b x = Some v"
  by (auto simp: inferPartner_def Let_def split: option.splits)

lemma foldl_inferPartner_keeps: "gm x = Some v \<Longrightarrow> foldl (inferPartner pm a) gm bs x = Some v"
  by (induction bs arbitrary: gm) (auto simp: inferPartner_keeps)

lemma inferPartnersPass_keeps: "gm x = Some v \<Longrightarrow> inferPartnersPass pm people gm x = Some v"
  unfolding inferPartnersPass_def
  by (induction people arbitrary: gm) (auto simp: foldl_inferPartner_keeps)

lemma inferPartnersLoop_keeps: "gm x = Some v \<Longrightarrow> inferPartnersLoop pm people i gm x = Some v"
proof (induction pm people i gm rule: inferPartnersLoop.induct)
  case (1 pm people i gm)
  then show ?case
    by (subst inferPartnersLoop.simps) (auto simp: inferPartnersPass_keeps)
qed

text \<open>
  C5.  An id that has an explicit gender before \<^const>\<open>buildLookups\<close> runs has the same
  gender after the parenthood pass and the five partnership passes.
\<close>

theorem explicit_gender_kept:
  "g x = Some v \<Longrightarrow> getGender (buildLookups people g) x = Some v"
proof -
  assume "g x = Some v"
  then have "inferPartnersLoop pm people 0 (inferFromParents people g) x = Some v" for pm
    by (intro inferPartnersLoop_keeps inferFromParents_keeps)
  then show ?thesis
    by (simp add: getGender_def buildLookups_def Let_def split: prod.splits)
qed

text \<open>
  In the data set \<open>X\<close> is explicitly female although she is listed as a partner of
  \<open>W\<close>, and stays so.
\<close>

theorem explicit_gender_kept_witness:
  "familyGenders ''X'' = Some Female \<and> getGender (buildLookups family familyGenders) ''X'' = Some Female"
proof -
  have h: "familyGenders ''X'' = Some Female"
    by (simp add: familyGenders_def)
  from explicit_gender_kept[of familyGenders "''X''" Female family] h show ?thesis by simp
qed

section \<open>The loops of the walks, case by case\<close>

lemma keys_map_set: "fst ` set (map_set k v m) = insert k (fst ` set m)"
  by (simp add: map_set_def dom_update)

text \<open>The parents a walk pushes for a person: the truthy father, then the truthy mother.\<close>

definition parentsOf :: "person \<Rightarrow> string list" where
  "parentsOf p =
     (case truthy (fid p) of Some f \<Rightarrow> [f] | None \<Rightarrow> []) @
     (case truthy (mid p) of Some m \<Rightarrow> [m] | None \<Rightarrow> [])"

lemma getAncestors_loop_Nil: "getAncestors_loop pm [] visited ancestors = ancestors"
  by (simp add: getAncestors_loop.simps)

lemma getAncestors_loop_visited:
  "cid \<in> visited \<Longrightarrow>
   getAncestors_loop pm ((cid, depth) # rest) visited ancestors =
   getAncestors_loop pm rest visited ancestors"
  by (simp add: getAncestors_loop.simps)

lemma getAncestors_loop_dangling:
  "cid \<notin> visited \<Longrightarrow> map_of pm cid = None \<Longrightarrow>
   getAncestors_loop pm ((cid, depth) # rest) visited ancestors =
   getAncestors_loop pm rest (insert cid visited) ancestors"
  by (simp add: getAncestors_loop.simps)

lemma getAncestors_loop_expand:
  "cid \<notin> visited \<Longrightarrow> map_of pm cid = Some person \<Longrightarrow>
   getAncestors_loop pm ((cid, depth) # rest) visited ancestors =
   getAncestors_loop pm (rest @ map (\<lambda>p. (p, depth + 1)) (parentsOf person))
     (insert cid visited) (map_set cid depth ancestors)"
  by (cases "truthy (fid person)"; cases "truthy (mid person)")
     (simp_all add: getAncestors_loop.simps parentsOf_def Let_def)

lemma getAncestors_loop_cases [case_names Nil Visited Dangling Expand]:
  fixes P :: "people_map \<Rightarrow> (string \<times> nat) list \<Rightarrow> string set \<Rightarrow> depths \<Rightarrow> bool"
  assumes "\<And>pm visited ancestors. P pm [] visited ancestors"
    and "\<And>pm cid depth rest visited ancestors.
           cid \<in> visited \<Longrightarrow> P pm rest visited ancestors \<Longrightarrow>
           P pm ((cid, depth) # rest) visited ancestors"
    and "\<And>pm cid depth rest visited ancestors.
           cid \<notin> visited \<Longrightarrow> map_of pm cid = None \<Longrightarrow>
           P pm rest (insert cid visited) ancestors \<Longrightarrow>
           P pm ((cid, depth) # rest) visited ancestors"
    and "\<And>pm cid depth rest visited ancestors person.
           cid \<notin> visited \<Longrightarrow> map_of pm cid = Some person \<Longrightarrow>
           P pm (rest @ map (\<lambda>p. (p, depth + 1)) (parentsOf person))
             (insert cid visited) (map_set cid depth ancestors) \<Longrightarrow>
           P pm ((cid, depth) # rest) visited ancestors"
  shows "P pm queue visited ancestors"
proof (induction pm queue visited ancestors rule: getAncestors_loop.induct)
  case (1 pm visited ancestors)
  show ?case by (rule assms(1))
next
  case (2 pm cid depth rest visited ancestors)
  show ?case
  proof (cases "cid \<in> visited")
    case True
    with 2(1) show ?thesis by (intro assms(2))
  next
    case False
    show ?thesis
    proof (cases "map_of pm cid")
      case None
      with 2(2) False show ?thesis by (intro assms(3))
    next
      case (Some person)
      have "P pm (rest @ map (\<lambda>p. (p, depth + 1)) (parentsOf person))
             (insert cid visited) (map_set cid depth ancestors)"
        using 2(3)[OF False Some refl refl refl]
        by (cases "truthy (fid person)"; cases "truthy (mid person)")
           (simp_all add: parentsOf_def)
      with False Some show ?thesis by (intro assms(4))
    qed
  qed
qed

section \<open>Keys of the ancestor object\<close>

lemma getAncestors_loop_keys:
  "fst ` set (getAncestors_loop pm queue visited ancestors) \<subseteq> fst ` set ancestors \<union> dom (map_of pm)"
proof (induction pm queue visited ancestors rule: getAncestors_loop_cases)
  case (Nil pm visited ancestors)
  show ?case by (simp add: getAncestors_loop_Nil)
next
  case (Visited pm cid depth rest visited ancestors)
  from Visited.IH show ?case by (simp only: getAncestors_loop_visited[OF Visited.hyps])
next
  case (Dangling pm cid depth rest visited ancestors)
  from Dangling.IH show ?case by (simp only: getAncestors_loop_dangling[OF Dangling.hyps])
next
  case (Expand pm cid depth rest visited ancestors person)
  from Expand.IH have
    "fst ` set (getAncestors_loop pm ((cid, depth) # rest) visited ancestors)
       \<subseteq> fst ` set (map_set cid depth ancestors) \<union> dom (map_of pm)"
    by (simp only: getAncestors_loop_expand[OF Expand.hyps])
  moreover have "cid \<in> dom (map_of pm)" using Expand.hyps(2) by auto
  ultimately show ?case by (auto simp: keys_map_set)
qed

text \<open>
  C10.  Every key of the object \<^const>\<open>getAncestors\<close> returns is the id of a person in
  \<^verbatim>\<open>peopleMap\<close>, so a dangling parent link never becomes a key; and when the starting
  id is not in \<^verbatim>\<open>peopleMap\<close> the object is empty.
\<close>

theorem getAncestors_keys_in_peopleMap:
  "(\<forall>k \<in> fst ` set (getAncestors st i). map_of (peopleMap st) k \<noteq> None) \<and>
   (map_of (peopleMap st) i = None \<longrightarrow> getAncestors st i = [])"
proof
  show "\<forall>k \<in> fst ` set (getAncestors st i). map_of (peopleMap st) k \<noteq> None"
    using getAncestors_loop_keys[of "peopleMap st" "[(i, 0)]" "{}" "[]"]
    by (auto simp: getAncestors_def)
  show "map_of (peopleMap st) i = None \<longrightarrow> getAncestors st i = []"
    by (simp add: getAncestors_def getAncestors_loop_dangling getAncestors_loop_Nil)
qed

text \<open>
  \<open>W\<close> has a father \<open>V\<close> who is not in the data: \<open>V\<close> is queued and dropped.
\<close>

theorem getAncestors_keys_in_peopleMap_witness:
  "getAncestors familyStore ''W'' = [(''W'', 0)] \<and>
   map_of (peopleMap familyStore) ''W'' \<noteq> None \<and>
   map_of (peopleMap familyStore) ''V'' = None \<and>
   getAncestors familyStore ''V'' = []"
proof -
  have a: "getAncestors familyStore ''W'' = [(''W'', 0)]"
    by code_simp
  have v: "map_of (peopleMap familyStore) ''V'' = None"
    by code_simp
  from getAncestors_keys_in_peopleMap[of familyStore "''W''"]
       getAncestors_keys_in_peopleMap[of familyStore "''V''"] a v
  show ?thesis by simp
qed

section \<open>The family set is closed under its links\<close>

lemma id_sanitizeNode: "id' (sanitizeNode st ids n) = id' n"
  by (simp add: sanitizeNode_def Let_def split: prod.splits)

lemma pids_sanitizeNode: "set (pids (sanitizeNode st ids n)) \<subseteq> ids"
  by (auto simp: sanitizeNode_def Let_def split: prod.splits)

lemma fid_sanitizeNode: "truthy (fid (sanitizeNode st ids n)) = Some f \<Longrightarrow> f \<in> ids"
  by (auto simp: sanitizeNode_def Let_def split: option.splits if_splits prod.splits)

lemma mid_sanitizeNode: "truthy (mid (sanitizeNode st ids n)) = Some f \<Longrightarrow> f \<in> ids"
  by (auto simp: sanitizeNode_def Let_def split: option.splits if_splits prod.splits)

lemma getFamilySet_ids:
  "map_of (peopleMap st) c = Some cn \<Longrightarrow>
   id' ` set (getFamilySet st c) = id' ` set (map snd (collectFamily st c cn))"
  by (simp add: getFamilySet_def Let_def id_sanitizeNode image_image)

text \<open>
  C2.  In the list \<^const>\<open>getFamilySet\<close> returns, every partner id of an element and every
  truthy father or mother id of an element is the id of an element of the list.
\<close>

theorem getFamilySet_closed:
  "\<forall>n \<in> set (getFamilySet st focusId).
     set (pids n) \<subseteq> id' ` set (getFamilySet st focusId) \<and>
     (\<forall>f. truthy (fid n) = Some f \<longrightarrow> f \<in> id' ` set (getFamilySet st focusId)) \<and>
     (\<forall>m. truthy (mid n) = Some m \<longrightarrow> m \<in> id' ` set (getFamilySet st focusId))"
proof (cases "map_of (peopleMap st) focusId")
  case None
  then show ?thesis by (simp add: getFamilySet_def)
next
  case (Some cn)
  define ids where "ids = id' ` set (map snd (collectFamily st focusId cn))"
  have eq: "id' ` set (getFamilySet st focusId) = ids"
    using getFamilySet_ids[OF Some] by (simp add: ids_def)
  have gf: "getFamilySet st focusId = map (sanitizeNode st ids) (map snd (collectFamily st focusId cn))"
    using Some by (simp add: getFamilySet_def Let_def ids_def)
  show ?thesis
    unfolding eq
    by (auto simp: gf dest: fid_sanitizeNode mid_sanitizeNode
        intro: subsetD[OF pids_sanitizeNode])
qed

text \<open>
  Around \<open>X\<close>: the partner \<open>Z\<close> is dropped, the father of \<open>M\<close> and the father of
  \<open>W\<close> are outside the set and become \<^verbatim>\<open>null\<close>.
\<close>

theorem getFamilySet_closed_witness:
  "map id' (getFamilySet familyStore ''X'') = [''X'', ''P'', ''M'', ''W''] \<and>
   map pids (getFamilySet familyStore ''X'') = [[''W''], [''M''], [''P''], [''X'']] \<and>
   map fid (getFamilySet familyStore ''X'') = [Some ''P'', Some [], None, None] \<and>
   map mid (getFamilySet familyStore ''X'') = [Some ''M'', Some [], Some [], Some []]"
proof -
  have i: "map id' (getFamilySet familyStore ''X'') = [''X'', ''P'', ''M'', ''W'']"
    by code_simp
  have p: "map pids (getFamilySet familyStore ''X'') = [[''W''], [''M''], [''P''], [''X'']]"
    by code_simp
  have f: "map fid (getFamilySet familyStore ''X'') = [Some ''P'', Some [], None, None]"
    by code_simp
  have m: "map mid (getFamilySet familyStore ''X'') = [Some ''M'', Some [], Some [], Some []]"
    by code_simp
  from getFamilySet_closed[of familyStore "''X''"] i p f m show ?thesis by simp
qed

section \<open>The walks return\<close>

text \<open>
  The three \<^verbatim>\<open>while\<close> loops once more, now without any termination argument: as
  partial functions into \<open>option\<close>, where a loop that runs forever has the value
  \<open>None\<close>.  A returned \<^verbatim>\<open>null\<close> is \<open>Some None\<close>.
\<close>

partial_function (option) getAncestors_while ::
  "people_map \<Rightarrow> (string \<times> nat) list \<Rightarrow> string set \<Rightarrow> depths \<Rightarrow> depths option" where
  "getAncestors_while pm queue visited ancestors =
     (case queue of
        [] \<Rightarrow> Some ancestors
      | (cid, depth) # rest \<Rightarrow>
          if cid \<in> visited then getAncestors_while pm rest visited ancestors
          else
            case map_of pm cid of
              None \<Rightarrow> getAncestors_while pm rest (insert cid visited) ancestors
            | Some person \<Rightarrow>
                let ancestors1 = map_set cid depth ancestors;
                    queue1 = (case truthy (fid person) of
                                Some f \<Rightarrow> rest @ [(f, depth + 1)]
                              | None \<Rightarrow> rest);
                    queue2 = (case truthy (mid person) of
                                Some m \<Rightarrow> queue1 @ [(m, depth + 1)]
                              | None \<Rightarrow> queue1)
                in getAncestors_while pm queue2 (insert cid visited) ancestors1)"

partial_function (option) getAncestorPath_while ::
  "people_map \<Rightarrow> string \<Rightarrow> (string \<times> string list) list \<Rightarrow> string set \<Rightarrow> string list option option" where
  "getAncestorPath_while pm targetAncestor queue visited =
     (case queue of
        [] \<Rightarrow> Some None
      | (cid, path) # rest \<Rightarrow>
          if cid \<in> visited then getAncestorPath_while pm targetAncestor rest visited
          else if cid = targetAncestor then Some (Some path)
          else
            case map_of pm cid of
              None \<Rightarrow> getAncestorPath_while pm targetAncestor rest (insert cid visited)
            | Some p \<Rightarrow>
                let queue1 = (case truthy (fid p) of
                                Some f \<Rightarrow> rest @ [(f, path @ [f])]
                              | None \<Rightarrow> rest);
                    queue2 = (case truthy (mid p) of
                                Some m \<Rightarrow> queue1 @ [(m, path @ [m])]
                              | None \<Rightarrow> queue1)
                in getAncestorPath_while pm targetAncestor queue2 (insert cid visited))"

partial_function (option) getDescendantPath_while ::
  "children_map \<Rightarrow> string \<Rightarrow> (string \<times> string list) list \<Rightarrow> string set \<Rightarrow> string list option option" where
  "getDescendantPath_while cm targetId queue visited =
     (case queue of
        [] \<Rightarrow> Some None
      | (cid, path) # rest \<Rightarrow>
          if cid \<in> visited then getDescendantPath_while cm targetId rest visited
          else if cid = targetId then Some (Some path)
          else
            let children = (case map_of cm cid of Some cs \<Rightarrow> cs | None \<Rightarrow> []);
                queue1 = rest @ map (\<lambda>child. (child, path @ [child])) children
            in getDescendantPath_while cm targetId queue1 (insert cid visited))"

lemma getAncestors_while_returns:
  "getAncestors_while pm queue visited ancestors = Some (getAncestors_loop pm queue visited ancestors)"
proof (induction pm queue visited ancestors rule: getAncestors_loop.induct)
  case (1 pm visited ancestors)
  then show ?case by (simp add: getAncestors_loop.simps getAncestors_while.simps)
next
  case (2 pm cid depth rest visited ancestors)
  then show ?case
    by (subst getAncestors_while.simps, subst getAncestors_loop.simps)
       (simp add: Let_def split: option.splits)
qed

lemma getAncestorPath_while_returns:
  "getAncestorPath_while pm target queue visited = Some (getAncestorPath_loop pm target queue visited)"
proof (induction pm target queue visited rule: getAncestorPath_loop.induct)
  case (1 pm target visited)
  then show ?case by (simp add: getAncestorPath_loop.simps getAncestorPath_while.simps)
next
  case (2 pm target cid path rest visited)
  then show ?case
    by (subst getAncestorPath_while.simps, subst getAncestorPath_loop.simps)
       (simp add: Let_def split: option.splits)
qed

lemma getDescendantPath_while_returns:
  "getDescendantPath_while cm target queue visited = Some (getDescendantPath_loop cm target queue visited)"
proof (induction cm target queue visited rule: getDescendantPath_loop.induct)
  case (1 cm target visited)
  then show ?case by (simp add: getDescendantPath_loop.simps getDescendantPath_while.simps)
next
  case (2 cm target cid path rest visited)
  then show ?case
    by (subst getDescendantPath_while.simps, subst getDescendantPath_loop.simps)
       (simp add: Let_def split: option.splits)
qed

lemma inferPartnersLoop_five:
  "inferPartnersLoop pm people 0 gm = (inferPartnersPass pm people ^^ 5) gm"
  by (simp add: inferPartnersLoop.simps numeral_eq_Suc funpow_swap1)

text \<open>
  C6.  The partnership loop of \<^const>\<open>buildLookups\<close> is five sweeps over the records, and
  the three walks return on every data set, cyclic or not, from every state of queue and
  visited set: the partial loop has the value the total function computes.  The total
  functions above terminate because every run of the body either shortens the queue or
  marks a person of the map visited for the first time.
\<close>

theorem loops_return:
  "inferPartnersLoop pm people 0 gm = (inferPartnersPass pm people ^^ 5) gm \<and>
   getAncestors_while pm queue visited ancestors =
     Some (getAncestors_loop pm queue visited ancestors) \<and>
   getAncestorPath_while pm target pqueue visited =
     Some (getAncestorPath_loop pm target pqueue visited) \<and>
   getDescendantPath_while cm target pqueue visited =
     Some (getDescendantPath_loop cm target pqueue visited)"
  by (simp only: inferPartnersLoop_five getAncestors_while_returns getAncestorPath_while_returns
      getDescendantPath_while_returns simp_thms)

text \<open>On the cyclic data set the walks from \<open>A\<close> return, also for a target that is not there.\<close>

theorem loops_return_witness:
  "getAncestors_while (peopleMap cyclicStore) [(''A'', 0)] {} [] = Some [(''A'', 0), (''B'', 1)] \<and>
   getAncestorPath_while (peopleMap cyclicStore) ''C'' [(''A'', [''A''])] {} = Some None \<and>
   getDescendantPath_while (childrenMap cyclicStore) ''C'' [(''A'', [''A''])] {} = Some None"
proof -
  have w1: "getAncestors_loop (peopleMap cyclicStore) [(''A'', 0)] {} [] = [(''A'', 0), (''B'', 1)]"
    by code_simp
  have w2: "getAncestorPath_loop (peopleMap cyclicStore) ''C'' [(''A'', [''A''])] {} = None"
    by code_simp
  have w3: "getDescendantPath_loop (childrenMap cyclicStore) ''C'' [(''A'', [''A''])] {} = None"
    by code_simp
  from loops_return[of "peopleMap cyclicStore" cyclicPeople Map.empty "[(''A'', 0)]" "{}" "[]"
         "''C''" "[(''A'', [''A''])]" "childrenMap cyclicStore"] w1 w2 w3
  show ?thesis by simp
qed

section \<open>The common ancestor \<^const>\<open>findRelationship\<close> selects\<close>

text \<open>The sum of the two depths of an id that is a key of both ancestor objects.\<close>

definition sumDepth :: "depths \<Rightarrow> depths \<Rightarrow> string \<Rightarrow> nat option" where
  "sumDepth a1 a2 k =
     (case (map_of a1 k, map_of a2 k) of (Some d1, Some d2) \<Rightarrow> Some (d1 + d2) | _ \<Rightarrow> None)"

lemma bestAncestor_loop_skip:
  "sumDepth a1 a2 anc = None \<Longrightarrow>
   bestAncestor_loop (anc # rest) a1 a2 (b, bd) = bestAncestor_loop rest a1 a2 (b, bd)"
  by (auto simp: sumDepth_def split: option.splits)

lemma bestAncestor_loop_take:
  "sumDepth a1 a2 anc = Some s \<Longrightarrow> enat s < bd \<Longrightarrow>
   bestAncestor_loop (anc # rest) a1 a2 (b, bd) = bestAncestor_loop rest a1 a2 (Some anc, enat s)"
  by (auto simp: sumDepth_def split: option.splits)

lemma bestAncestor_loop_keep:
  "sumDepth a1 a2 anc = Some s \<Longrightarrow> \<not> enat s < bd \<Longrightarrow>
   bestAncestor_loop (anc # rest) a1 a2 (b, bd) = bestAncestor_loop rest a1 a2 (b, bd)"
  by (auto simp: sumDepth_def split: option.splits)

lemma bestAncestor_loop_none:
  "\<forall>k \<in> set ks. \<forall>s. sumDepth a1 a2 k = Some s \<longrightarrow> \<not> enat s < bd \<Longrightarrow>
   bestAncestor_loop ks a1 a2 (b, bd) = (b, bd)"
proof (induction ks)
  case Nil
  then show ?case by simp
next
  case (Cons anc rest)
  show ?case
  proof (cases "sumDepth a1 a2 anc")
    case None
    with Cons show ?thesis by (simp add: bestAncestor_loop_skip del: bestAncestor_loop.simps)
  next
    case (Some s)
    with Cons.prems have "\<not> enat s < bd" by simp
    with Some Cons show ?thesis by (simp add: bestAncestor_loop_keep del: bestAncestor_loop.simps)
  qed
qed

lemma bestAncestor_loop_some:
  "\<exists>k \<in> set ks. \<exists>s. sumDepth a1 a2 k = Some s \<and> enat s < bd \<Longrightarrow>
   \<exists>pre anc post s. ks = pre @ anc # post \<and>
      bestAncestor_loop ks a1 a2 (b, bd) = (Some anc, enat s) \<and>
      sumDepth a1 a2 anc = Some s \<and> enat s < bd \<and>
      (\<forall>k \<in> set pre. \<forall>s'. sumDepth a1 a2 k = Some s' \<longrightarrow> s < s') \<and>
      (\<forall>k \<in> set post. \<forall>s'. sumDepth a1 a2 k = Some s' \<longrightarrow> s \<le> s')"
proof (induction ks arbitrary: b bd)
  case Nil
  then show ?case by simp
next
  case (Cons anc rest)
  let ?better = "\<lambda>bound. \<exists>k \<in> set rest. \<exists>s. sumDepth a1 a2 k = Some s \<and> enat s < bound"
  show ?case
  proof (cases "sumDepth a1 a2 anc")
    case None
    with Cons.prems have "?better bd" by auto
    from Cons.IH[OF this, of b] obtain pre anc' post s where
      r: "rest = pre @ anc' # post"
         "bestAncestor_loop rest a1 a2 (b, bd) = (Some anc', enat s)"
         "sumDepth a1 a2 anc' = Some s" "enat s < bd"
         "\<forall>k \<in> set pre. \<forall>s'. sumDepth a1 a2 k = Some s' \<longrightarrow> s < s'"
         "\<forall>k \<in> set post. \<forall>s'. sumDepth a1 a2 k = Some s' \<longrightarrow> s \<le> s'"
      by blast
    have "anc # rest = (anc # pre) @ anc' # post" using r(1) by simp
    moreover have "bestAncestor_loop (anc # rest) a1 a2 (b, bd) = (Some anc', enat s)"
      using None r(2) by (simp add: bestAncestor_loop_skip del: bestAncestor_loop.simps)
    moreover have "\<forall>k \<in> set (anc # pre). \<forall>s'. sumDepth a1 a2 k = Some s' \<longrightarrow> s < s'"
      using None r(5) by simp
    ultimately show ?thesis using r(3,4,6) by blast
  next
    case (Some s0)
    show ?thesis
    proof (cases "enat s0 < bd")
      case take: True
      show ?thesis
      proof (cases "?better (enat s0)")
        case True
        from Cons.IH[OF this, of "Some anc"] obtain pre anc' post s where
          r: "rest = pre @ anc' # post"
             "bestAncestor_loop rest a1 a2 (Some anc, enat s0) = (Some anc', enat s)"
             "sumDepth a1 a2 anc' = Some s" "enat s < enat s0"
             "\<forall>k \<in> set pre. \<forall>s'. sumDepth a1 a2 k = Some s' \<longrightarrow> s < s'"
             "\<forall>k \<in> set post. \<forall>s'. sumDepth a1 a2 k = Some s' \<longrightarrow> s \<le> s'"
          by blast
        have "anc # rest = (anc # pre) @ anc' # post" using r(1) by simp
        moreover have "bestAncestor_loop (anc # rest) a1 a2 (b, bd) = (Some anc', enat s)"
          using Some take r(2) by (simp add: bestAncestor_loop_take del: bestAncestor_loop.simps)
        moreover have "\<forall>k \<in> set (anc # pre). \<forall>s'. sumDepth a1 a2 k = Some s' \<longrightarrow> s < s'"
          using Some r(4,5) by simp
        moreover have "enat s < bd" using r(4) take by (rule order_less_trans)
        ultimately show ?thesis using r(3,6) by blast
      next
        case False
        then have none: "\<forall>k \<in> set rest. \<forall>s. sumDepth a1 a2 k = Some s \<longrightarrow> \<not> enat s < enat s0"
          by blast
        have "bestAncestor_loop (anc # rest) a1 a2 (b, bd) = (Some anc, enat s0)"
          using Some take bestAncestor_loop_none[OF none]
          by (simp add: bestAncestor_loop_take del: bestAncestor_loop.simps)
        moreover have "anc # rest = [] @ anc # rest" by simp
        moreover have "\<forall>k \<in> set rest. \<forall>s'. sumDepth a1 a2 k = Some s' \<longrightarrow> s0 \<le> s'"
          using none by (auto simp: not_less)
        moreover have "\<forall>k \<in> set []. \<forall>s'. sumDepth a1 a2 k = Some s' \<longrightarrow> s0 < s'" by simp
        ultimately show ?thesis using Some take by blast
      qed
    next
      case keep: False
      with Some Cons.prems have "?better bd" by auto
      from Cons.IH[OF this, of b] obtain pre anc' post s where
        r: "rest = pre @ anc' # post"
           "bestAncestor_loop rest a1 a2 (b, bd) = (Some anc', enat s)"
           "sumDepth a1 a2 anc' = Some s" "enat s < bd"
           "\<forall>k \<in> set pre. \<forall>s'. sumDepth a1 a2 k = Some s' \<longrightarrow> s < s'"
           "\<forall>k \<in> set post. \<forall>s'. sumDepth a1 a2 k = Some s' \<longrightarrow> s \<le> s'"
        by blast
      have "bd \<le> enat s0" using keep by (simp add: not_less)
      with r(4) have "enat s < enat s0" by (rule order_less_le_trans)
      have "anc # rest = (anc # pre) @ anc' # post" using r(1) by simp
      moreover have "bestAncestor_loop (anc # rest) a1 a2 (b, bd) = (Some anc', enat s)"
        using Some keep r(2) by (simp add: bestAncestor_loop_keep del: bestAncestor_loop.simps)
      moreover have "\<forall>k \<in> set (anc # pre). \<forall>s'. sumDepth a1 a2 k = Some s' \<longrightarrow> s < s'"
        using Some r(5) \<open>enat s < enat s0\<close> by simp
      ultimately show ?thesis using r(3,4,6) by blast
    qed
  qed
qed

lemma set_for_in_keys: "set (for_in_keys obj) = fst ` set obj"
  by (auto simp: for_in_keys_def image_iff)

lemma sumDepth_Some_key: "sumDepth a1 a2 k = Some s \<Longrightarrow> k \<in> set (for_in_keys a1)"
  by (auto simp: sumDepth_def set_for_in_keys split: option.splits dest: map_of_SomeD intro: rev_image_eqI)

lemma set_parentsOf_nonempty: "p \<in> set (parentsOf person) \<Longrightarrow> p \<noteq> []"
  by (cases "fid person"; cases "mid person") (auto simp: parentsOf_def split: if_splits)

lemma getAncestors_loop_nonempty:
  "\<forall>e \<in> set queue. fst e \<noteq> [] \<Longrightarrow> \<forall>k \<in> fst ` set ancestors. k \<noteq> [] \<Longrightarrow>
   \<forall>k \<in> fst ` set (getAncestors_loop pm queue visited ancestors). k \<noteq> []"
proof (induction pm queue visited ancestors rule: getAncestors_loop_cases)
  case (Nil pm visited ancestors)
  then show ?case by (simp only: getAncestors_loop_Nil)
next
  case (Visited pm cid depth rest visited ancestors)
  have "\<forall>e \<in> set rest. fst e \<noteq> []" using Visited.prems(1) by simp
  from Visited.IH[OF this Visited.prems(2)] show ?case
    by (simp only: getAncestors_loop_visited[OF Visited.hyps])
next
  case (Dangling pm cid depth rest visited ancestors)
  have "\<forall>e \<in> set rest. fst e \<noteq> []" using Dangling.prems(1) by simp
  from Dangling.IH[OF this Dangling.prems(2)] show ?case
    by (simp only: getAncestors_loop_dangling[OF Dangling.hyps])
next
  case (Expand pm cid depth rest visited ancestors person)
  have q: "\<forall>e \<in> set (rest @ map (\<lambda>p. (p, depth + 1)) (parentsOf person)). fst e \<noteq> []"
    using Expand.prems(1) by (auto dest: set_parentsOf_nonempty)
  have a: "\<forall>k \<in> fst ` set (map_set cid depth ancestors). k \<noteq> []"
    using Expand.prems by (auto simp: keys_map_set)
  from Expand.IH[OF q a] show ?case
    by (simp only: getAncestors_loop_expand[OF Expand.hyps])
qed

lemma getAncestors_keys_nonempty:
  assumes "i \<noteq> []" and "k \<in> fst ` set (getAncestors st i)"
  shows "k \<noteq> []"
proof -
  have q: "\<forall>e \<in> set [(i, 0::nat)]. fst e \<noteq> []" using assms(1) by simp
  have a: "\<forall>k \<in> fst ` set ([] :: depths). k \<noteq> []" by simp
  from getAncestors_loop_nonempty[OF q a, of "peopleMap st" "{}"] assms(2)
  show ?thesis unfolding getAncestors_def by blast
qed

text \<open>
  C1.  An id is a non-empty string: the empty string is the program's value for a missing
  id, and both callers of \<^verbatim>\<open>findRelationship\<close> return before the call when one of
  the two is missing.  For ids that are different and not partners: when no id is a key of both ancestor objects the
  answer is the no-relation label; otherwise the selected ancestor is a common key whose
  depth sum is minimal among all common keys, every common key the \<^verbatim>\<open>for-in\<close> loop
  meets before it has a strictly larger sum, and the answer is the classification of the
  two paths through it.
\<close>

theorem findRelationship_common_ancestor:
  assumes "id1 \<noteq> []" and "id2 \<noteq> []" and "id1 \<noteq> id2"
    and "\<forall>person1. map_of (peopleMap st) id1 = Some person1 \<longrightarrow> id2 \<notin> set (pids person1)"
  shows
    "((\<forall>k. sumDepth (getAncestors st id1) (getAncestors st id2) k = None) \<longrightarrow>
        findRelationship st id1 id2 = ''No direct blood relation'') \<and>
     ((\<exists>k. sumDepth (getAncestors st id1) (getAncestors st id2) k \<noteq> None) \<longrightarrow>
        (\<exists>anc s.
           bestAncestor st id1 id2 = Some anc \<and>
           findRelationship st id1 id2 =
             interpretHinduRelation st id1 id2 (getAncestorPath st id1 anc) (getDescendantPath st anc id2) \<and>
           sumDepth (getAncestors st id1) (getAncestors st id2) anc = Some s \<and>
           (\<forall>k s'. sumDepth (getAncestors st id1) (getAncestors st id2) k = Some s' \<longrightarrow> s \<le> s') \<and>
           (\<forall>k \<in> set (takeWhile (\<lambda>k. k \<noteq> anc) (for_in_keys (getAncestors st id1))).
              \<forall>s'. sumDepth (getAncestors st id1) (getAncestors st id2) k = Some s' \<longrightarrow> s < s')))"
proof -
  define a1 where "a1 = getAncestors st id1"
  define a2 where "a2 = getAncestors st id2"
  have notPartner: "\<not> (case map_of (peopleMap st) id1 of
                 Some person1 \<Rightarrow> id2 \<in> set (pids person1) | None \<Rightarrow> False)"
    using assms(4) by (auto split: option.splits)
  have fr: "findRelationship st id1 id2 =
      (case truthy (bestAncestor st id1 id2) of
          None \<Rightarrow> ''No direct blood relation''
        | Some anc \<Rightarrow> interpretHinduRelation st id1 id2 (getAncestorPath st id1 anc) (getDescendantPath st anc id2))"
    using assms(1-3) notPartner by (simp add: findRelationship_def Let_def split: option.splits)
  have ba: "bestAncestor st id1 id2 = fst (bestAncestor_loop (for_in_keys a1) a1 a2 (None, \<infinity>))"
    by (simp add: bestAncestor_def a1_def a2_def Let_def)
  have part1: "findRelationship st id1 id2 = ''No direct blood relation''"
    if "\<forall>k. sumDepth a1 a2 k = None"
  proof -
    have "bestAncestor_loop (for_in_keys a1) a1 a2 (None, \<infinity>) = (None, \<infinity>)"
      by (rule bestAncestor_loop_none) (simp add: that)
    then show ?thesis by (simp add: fr ba)
  qed
  have part2: "\<exists>anc s.
           bestAncestor st id1 id2 = Some anc \<and>
           findRelationship st id1 id2 =
             interpretHinduRelation st id1 id2 (getAncestorPath st id1 anc) (getDescendantPath st anc id2) \<and>
           sumDepth a1 a2 anc = Some s \<and>
           (\<forall>k s'. sumDepth a1 a2 k = Some s' \<longrightarrow> s \<le> s') \<and>
           (\<forall>k \<in> set (takeWhile (\<lambda>k. k \<noteq> anc) (for_in_keys a1)).
              \<forall>s'. sumDepth a1 a2 k = Some s' \<longrightarrow> s < s')"
    if "\<exists>k. sumDepth a1 a2 k \<noteq> None"
  proof -
    from that obtain k0 s0 where k0: "sumDepth a1 a2 k0 = Some s0" by auto
    then have "\<exists>k \<in> set (for_in_keys a1). \<exists>s. sumDepth a1 a2 k = Some s \<and> enat s < \<infinity>"
      using sumDepth_Some_key by auto
    from bestAncestor_loop_some[OF this, of None] obtain pre anc post s where
      r: "for_in_keys a1 = pre @ anc # post"
         "bestAncestor_loop (for_in_keys a1) a1 a2 (None, \<infinity>) = (Some anc, enat s)"
         "sumDepth a1 a2 anc = Some s"
         "\<forall>k \<in> set pre. \<forall>s'. sumDepth a1 a2 k = Some s' \<longrightarrow> s < s'"
         "\<forall>k \<in> set post. \<forall>s'. sumDepth a1 a2 k = Some s' \<longrightarrow> s \<le> s'"
      by blast
    have b: "bestAncestor st id1 id2 = Some anc" using r(2) by (simp add: ba)
    have "anc \<in> fst ` set a1"
      using sumDepth_Some_key[OF r(3)] by (simp add: set_for_in_keys)
    then have "anc \<noteq> []"
      using getAncestors_keys_nonempty[OF assms(1)] by (simp add: a1_def)
    then have f: "findRelationship st id1 id2 =
        interpretHinduRelation st id1 id2 (getAncestorPath st id1 anc) (getDescendantPath st anc id2)"
      by (simp add: fr b)
    have "anc \<notin> set pre" using r(3,4) by auto
    then have tw: "takeWhile (\<lambda>k. k \<noteq> anc) (for_in_keys a1) = pre"
      by (subst r(1), subst takeWhile_append2) auto
    have minimal: "\<forall>k s'. sumDepth a1 a2 k = Some s' \<longrightarrow> s \<le> s'"
    proof (intro allI impI)
      fix k s' assume ks: "sumDepth a1 a2 k = Some s'"
      then have "k \<in> set pre \<or> k = anc \<or> k \<in> set post"
        using sumDepth_Some_key[OF ks] by (auto simp: r(1))
      then show "s \<le> s'" using ks r(3,4,5) by (auto dest: less_imp_le)
    qed
    show ?thesis using b f r(3,4) tw minimal by auto
  qed
  show ?thesis using part1 part2 unfolding a1_def a2_def by blast
qed

text \<open>
  \<open>X\<close> and \<open>Y\<close> have the common ancestors \<open>P\<close> and \<open>Q\<close>, both with depth sum 3;
  \<open>P\<close> comes first among the keys of the first object.  \<open>W\<close> and \<open>P\<close> have none.
\<close>

theorem findRelationship_common_ancestor_witness:
  "bestAncestor familyStore ''X'' ''Y'' = Some ''P'' \<and>
   sumDepth (getAncestors familyStore ''X'') (getAncestors familyStore ''Y'') ''P'' = Some 3 \<and>
   sumDepth (getAncestors familyStore ''X'') (getAncestors familyStore ''Y'') ''Q'' = Some 3 \<and>
   for_in_keys (getAncestors familyStore ''X'') = [''X'', ''P'', ''M'', ''Q''] \<and>
   findRelationship familyStore ''X'' ''Y'' =
     interpretHinduRelation familyStore ''X'' ''Y''
       (getAncestorPath familyStore ''X'' ''P'') (getDescendantPath familyStore ''P'' ''Y'') \<and>
   findRelationship familyStore ''W'' ''P'' = ''No direct blood relation''"
proof -
  have b: "bestAncestor familyStore ''X'' ''Y'' = Some ''P''"
    by code_simp
  have sP: "sumDepth (getAncestors familyStore ''X'') (getAncestors familyStore ''Y'') ''P'' = Some 3"
    by code_simp
  have sQ: "sumDepth (getAncestors familyStore ''X'') (getAncestors familyStore ''Y'') ''Q'' = Some 3"
    by code_simp
  have ks: "for_in_keys (getAncestors familyStore ''X'') = [''X'', ''P'', ''M'', ''Q'']"
    by code_simp
  have pX: "map_of (peopleMap familyStore) ''X'' =
      Some (newPerson ''X'' ''Xena Rao'' ''P'' ''M'' [''W'', ''Z''] ''10-JAN-85'')"
    by code_simp
  have nX: "\<forall>person1. map_of (peopleMap familyStore) ''X'' = Some person1
              \<longrightarrow> ''Y'' \<notin> set (pids person1)"
    by (simp add: pX newPerson_def)
  have "\<exists>k. sumDepth (getAncestors familyStore ''X'') (getAncestors familyStore ''Y'') k \<noteq> None"
    using sP by auto
  with findRelationship_common_ancestor[of "''X''" "''Y''" familyStore] nX
  obtain anc where
    "bestAncestor familyStore ''X'' ''Y'' = Some anc"
    "findRelationship familyStore ''X'' ''Y'' =
       interpretHinduRelation familyStore ''X'' ''Y''
         (getAncestorPath familyStore ''X'' anc) (getDescendantPath familyStore anc ''Y'')"
    by auto
  with b have r: "findRelationship familyStore ''X'' ''Y'' =
     interpretHinduRelation familyStore ''X'' ''Y''
       (getAncestorPath familyStore ''X'' ''P'') (getDescendantPath familyStore ''P'' ''Y'')"
    by simp
  have aW: "getAncestors familyStore ''W'' = [(''W'', 0)]"
    by code_simp
  have aP: "getAncestors familyStore ''P'' = [(''P'', 0)]"
    by code_simp
  have pW: "map_of (peopleMap familyStore) ''W'' =
      Some (newPerson ''W'' ''Wasim'' ''V'' [] [''X''] [])"
    by code_simp
  have nW: "\<forall>person1. map_of (peopleMap familyStore) ''W'' = Some person1
              \<longrightarrow> ''P'' \<notin> set (pids person1)"
    by (simp add: pW newPerson_def)
  have "\<forall>k. sumDepth (getAncestors familyStore ''W'') (getAncestors familyStore ''P'') k = None"
    by (simp add: aW aP sumDepth_def)
  with findRelationship_common_ancestor[of "''W''" "''P''" familyStore] nW
  have n: "findRelationship familyStore ''W'' ''P'' = ''No direct blood relation''"
    by simp
  from b sP sQ ks r n show ?thesis by simp
qed

section \<open>The pivot rule for two-digit years\<close>

lemma is_digit_iff: "is_digit c \<longleftrightarrow> 48 \<le> (of_char c :: nat) \<and> (of_char c :: nat) \<le> 57"
  by (simp add: is_digit_def less_eq_char_def)

lemma is_space_iff: "is_space c \<longleftrightarrow> (of_char c :: nat) \<in> {32, 9, 10, 11, 12, 13}"
  by (cases c) (auto simp: is_space_def)

lemma digit_not_space: "is_digit c \<Longrightarrow> \<not> is_space c"
  by (auto simp: is_digit_iff is_space_iff)

lemma digit_not_sign: "is_digit c \<Longrightarrow> c \<noteq> CHR ''-'' \<and> c \<noteq> CHR ''+''"
  by (auto simp: is_digit_iff)

lemma dash_not_space: "\<not> is_space CHR ''-''"
  by (simp add: is_space_def)

lemma split_on_from_no_sep:
  "sep \<notin> set s \<Longrightarrow> split_on_from sep cur s = [rev cur @ s]"
  by (induction s arbitrary: cur) auto

lemma split_on_from_sep:
  "sep \<notin> set a \<Longrightarrow> split_on_from sep cur (a @ sep # rest) = (rev cur @ a) # split_on_from sep [] rest"
  by (induction a arbitrary: cur) auto

lemma split_on_three:
  assumes "sep \<notin> set a" "sep \<notin> set b" "sep \<notin> set c"
  shows "split_on sep (a @ sep # b @ sep # c) = [a, b, c]"
  using assms by (simp add: split_on_def split_on_from_sep split_on_from_no_sep)

lemma js_trim_birth:
  assumes "\<not> is_space (last c)" "c \<noteq> []"
  shows "js_trim (a @ CHR ''-'' # b @ CHR ''-'' # c) = dropWhile is_space a @ CHR ''-'' # b @ CHR ''-'' # c"
proof -
  have 1: "dropWhile is_space (a @ CHR ''-'' # b @ CHR ''-'' # c) = dropWhile is_space a @ CHR ''-'' # b @ CHR ''-'' # c"
    by (simp add: dropWhile_append dash_not_space)
  have 2: "dropWhile is_space (rev (xs @ c)) = rev (xs @ c)" for xs
    using assms by (cases c rule: rev_cases) auto
  have "dropWhile is_space (rev (dropWhile is_space a @ CHR ''-'' # b @ CHR ''-'' # c))
        = rev (dropWhile is_space a @ CHR ''-'' # b @ CHR ''-'' # c)"
    using 2[of "dropWhile is_space a @ CHR ''-'' # b @ [CHR ''-'']"] by simp
  then show ?thesis
    unfolding js_trim_def 1 by simp
qed

lemma dec_value_snoc: "dec_value (xs @ [c]) = 10 * dec_value xs + digit_val c"
  by (simp add: dec_value_def)

lemma digit_val_char_of: "k < 10 \<Longrightarrow> digit_val (char_of (48 + k)) = (k::nat)"
  by (simp add: digit_val_def)

lemma is_digit_char_of: "(k::nat) < 10 \<Longrightarrow> is_digit (char_of (48 + k))"
  by (simp add: is_digit_iff)

lemma show_nat_digits: "show_nat n \<noteq> [] \<and> list_all is_digit (show_nat n)"
proof (induction n rule: show_nat.induct)
  case (1 n)
  show ?case
  proof (cases "n < 10")
    case True
    then show ?thesis by (subst show_nat.simps, subst show_nat.simps) (simp add: is_digit_char_of)
  next
    case False
    with 1 show ?thesis
      by (subst show_nat.simps, subst (2) show_nat.simps) (simp add: is_digit_char_of)
  qed
qed

lemma dec_value_show_nat: "dec_value (show_nat n) = n"
proof (induction n rule: show_nat.induct)
  case (1 n)
  show ?case
  proof (cases "n < 10")
    case True
    then show ?thesis by (subst show_nat.simps) (simp add: dec_value_def digit_val_char_of)
  next
    case False
    with 1 show ?thesis
      by (subst show_nat.simps) (simp add: dec_value_snoc digit_val_char_of)
  qed
qed

lemma parseInt_digits:
  assumes "ds \<noteq> []" "list_all is_digit ds"
  shows "parseInt ds = Some (int (dec_value ds))"
proof -
  obtain d rest where ds: "ds = d # rest" using assms(1) by (cases ds) auto
  have d: "is_digit d" using assms(2) ds by simp
  have 1: "dropWhile is_space (d # rest) = d # rest" using d digit_not_space by simp
  have 2: "takeWhile is_digit (d # rest) = d # rest"
    using assms(2) unfolding ds by (simp add: list_all_iff)
  show ?thesis
    unfolding ds parseInt_def Let_def 1
    using digit_not_sign[OF d] by (simp add: 2 del: takeWhile.simps)
qed

lemma parseInt_show_nat: "parseInt (show_nat n) = Some (int n)"
  using parseInt_digits[of "show_nat n"] show_nat_digits[of n] by (simp add: dec_value_show_nat)

lemma not_dash_show_nat: "CHR ''-'' \<notin> set (show_nat n)"
  using show_nat_digits[of n] digit_not_sign by (auto simp: list_all_iff)

lemma last_show_nat_not_space: "\<not> is_space (last (show_nat n))"
  using show_nat_digits[of n] digit_not_space by (auto simp: list_all_iff)

text \<open>The rule as the specification words it, for a two-digit year \<open>y\<close>.\<close>

definition pivotYear :: "jsdate \<Rightarrow> nat \<Rightarrow> int" where
  "pivotYear now y =
     (let pivot = getFullYear now mod 100 + 10
      in if int y > pivot then 1900 + int y else 2000 + int y)"

lemma js_rem_nonneg: "0 \<le> a \<Longrightarrow> js_rem a 100 = a mod 100"
  by (cases "a = 0") (simp_all add: js_rem_def)

lemma pivotYear_range: "1900 \<le> pivotYear now y"
  by (simp add: pivotYear_def Let_def)

lemma show_int_pivotYear: "show_int (pivotYear now y) = show_nat (nat (pivotYear now y))"
  using pivotYear_range[of now y] by (simp add: show_int_def)

lemma parseInt_two_digits:
  "is_digit d1 \<Longrightarrow> is_digit d2 \<Longrightarrow> parseInt [d1, d2] = Some (int (10 * digit_val d1 + digit_val d2))"
  using parseInt_digits[of "[d1, d2]"] by (simp add: dec_value_def)

lemma two_digits_lt_100: "is_digit d1 \<Longrightarrow> is_digit d2 \<Longrightarrow> 10 * digit_val d1 + digit_val d2 < 100"
  by (auto simp: is_digit_iff digit_val_def)

lemma parseInt_show_pivotYear: "parseInt (show_int (pivotYear now y)) = Some (pivotYear now y)"
  using pivotYear_range[of now y] by (simp add: show_int_pivotYear parseInt_show_nat)

text \<open>
  The last lines of \<^verbatim>\<open>getAgeFromBirth\<close>: the age on the day \<open>today\<close> of a person born on
  the day \<open>birth\<close>, refused when negative or above 150.
\<close>

definition ageOn :: "jsdate \<Rightarrow> jsdate \<Rightarrow> int option" where
  "ageOn today birth =
     (let age = getFullYear today - getFullYear birth;
          m = getMonth today - getMonth birth;
          age1 = (if m < 0 \<or> (m = 0 \<and> getDate today < getDate birth) then age - 1 else age)
      in if age1 < 0 \<or> age1 > 150 then None else Some age1)"

lemma parseInt_dropWhile: "parseInt (dropWhile is_space s) = parseInt s"
  by (simp add: parseInt_def dropWhile_idem)

text \<open>
  C9.  For a birth string \<open>day-mon-yy\<close> with two digits \<open>yy\<close>, and a current year that
  is not negative, the three helpers use the year the pivot rule gives:
  \<^const>\<open>formatDate\<close> prints it, \<^const>\<open>getBirthYearFromBirth\<close> returns it, and
  \<^const>\<open>getAgeFromBirth\<close> answers as for the same string with that four-digit year
  written out, which is the age, on the current day, of a birth on the date made of that
  year, the month and the day of the string.
\<close>

theorem two_digit_year_pivot:
  assumes "is_digit d1" and "is_digit d2"
    and "CHR ''-'' \<notin> set day" and "CHR ''-'' \<notin> set mon"
    and "0 \<le> getFullYear now"
  shows
    "formatDate now (day @ ''-'' @ mon @ ''-'' @ [d1, d2]) =
       day @ ''-'' @ mon @ ''-'' @ show_int (pivotYear now (10 * digit_val d1 + digit_val d2)) \<and>
     getBirthYearFromBirth now (day @ ''-'' @ mon @ ''-'' @ [d1, d2]) =
       Some (pivotYear now (10 * digit_val d1 + digit_val d2)) \<and>
     getAgeFromBirth now (day @ ''-'' @ mon @ ''-'' @ [d1, d2]) =
       getAgeFromBirth now
         (day @ ''-'' @ mon @ ''-'' @ show_int (pivotYear now (10 * digit_val d1 + digit_val d2))) \<and>
     getAgeFromBirth now (day @ ''-'' @ mon @ ''-'' @ [d1, d2]) =
       (case (months (take 3 (toUpperCase mon)), parseInt day) of
          (Some mo, Some dd) \<Rightarrow>
            (case newDate (pivotYear now (10 * digit_val d1 + digit_val d2)) mo dd of
               Some birth \<Rightarrow> ageOn now birth
             | None \<Rightarrow> None)
        | _ \<Rightarrow> None)"
proof -
  define y where "y = 10 * digit_val d1 + digit_val d2"
  define yy where "yy = [d1, d2]"
  define y4 where "y4 = show_int (pivotYear now y)"
  define day1 where "day1 = dropWhile is_space day"
  have ylt: "int y < 100" using two_digits_lt_100[OF assms(1,2)] by (simp add: y_def)
  have pyy: "parseInt yy = Some (int y)"
    using parseInt_two_digits[OF assms(1,2)] by (simp add: yy_def y_def)
  have py4: "parseInt y4 = Some (pivotYear now y)"
    by (simp add: y4_def parseInt_show_pivotYear)
  have big: "\<not> pivotYear now y < 100" using pivotYear_range[of now y] by simp
  have nd_yy: "CHR ''-'' \<notin> set yy"
    using digit_not_sign[OF assms(1)] digit_not_sign[OF assms(2)] by (auto simp: yy_def)
  have nd_y4: "CHR ''-'' \<notin> set y4"
    by (simp add: y4_def show_int_pivotYear not_dash_show_nat)
  have nd_day1: "CHR ''-'' \<notin> set day1"
    using assms(3) set_dropWhileD by (fastforce simp: day1_def)
  have sp_yy: "split_on CHR ''-'' (day @ CHR ''-'' # mon @ CHR ''-'' # yy) = [day, mon, yy]"
    by (rule split_on_three[OF assms(3,4) nd_yy])
  have tr_yy: "js_trim (day @ CHR ''-'' # mon @ CHR ''-'' # yy) = day1 @ CHR ''-'' # mon @ CHR ''-'' # yy"
    unfolding day1_def using digit_not_space[OF assms(2)] by (intro js_trim_birth) (simp_all add: yy_def)
  have tr_y4: "js_trim (day @ CHR ''-'' # mon @ CHR ''-'' # y4) = day1 @ CHR ''-'' # mon @ CHR ''-'' # y4"
    unfolding day1_def y4_def show_int_pivotYear
    using show_nat_digits[of "nat (pivotYear now y)"] last_show_nat_not_space
    by (intro js_trim_birth) simp_all
  have sp1_yy: "split_on CHR ''-'' (day1 @ CHR ''-'' # mon @ CHR ''-'' # yy) = [day1, mon, yy]"
    by (rule split_on_three[OF nd_day1 assms(4) nd_yy])
  have sp1_y4: "split_on CHR ''-'' (day1 @ CHR ''-'' # mon @ CHR ''-'' # y4) = [day1, mon, y4]"
    by (rule split_on_three[OF nd_day1 assms(4) nd_y4])
  have rule: "(let currentYear = js_rem (getFullYear now) 100; pivot = currentYear + 10
               in if int y > pivot then 1900 + int y else 2000 + int y) = pivotYear now y"
    by (simp add: pivotYear_def js_rem_nonneg[OF assms(5)] Let_def)
  have f: "formatDate now (day @ CHR ''-'' # mon @ CHR ''-'' # yy) = day @ CHR ''-'' # mon @ CHR ''-'' # y4"
    unfolding formatDate_def sp_yy using ylt rule
    by (simp add: pyy show_number_def y4_def Let_def)
  have b: "getBirthYearFromBirth now (day @ CHR ''-'' # mon @ CHR ''-'' # yy) = Some (pivotYear now y)"
    unfolding getBirthYearFromBirth_def tr_yy sp1_yy using ylt rule
    by (simp add: pyy Let_def)
  have a: "getAgeFromBirth now (day @ CHR ''-'' # mon @ CHR ''-'' # yy) =
           getAgeFromBirth now (day @ CHR ''-'' # mon @ CHR ''-'' # y4)"
    unfolding getAgeFromBirth_def tr_yy tr_y4 sp1_yy sp1_y4 using ylt rule big
    by (cases "months (take 3 (toUpperCase mon))"; cases "parseInt day1")
       (simp_all add: pyy py4 Let_def)
  have pd: "parseInt day1 = parseInt day"
    by (simp add: day1_def parseInt_dropWhile)
  have a2: "getAgeFromBirth now (day @ CHR ''-'' # mon @ CHR ''-'' # yy) =
       (case (months (take 3 (toUpperCase mon)), parseInt day) of
          (Some mo, Some dd) \<Rightarrow>
            (case newDate (pivotYear now y) mo dd of
               Some birth \<Rightarrow> ageOn now birth
             | None \<Rightarrow> None)
        | _ \<Rightarrow> None)"
  proof (cases "months (take 3 (toUpperCase mon))")
    case None
    then show ?thesis
      unfolding getAgeFromBirth_def tr_yy sp1_yy by (simp add: Let_def)
  next
    case mo: (Some mo)
    show ?thesis
    proof (cases "parseInt day")
      case None
      with mo pd show ?thesis
        unfolding getAgeFromBirth_def tr_yy sp1_yy by (simp add: Let_def)
    next
      case dd: (Some dd)
      show ?thesis
      proof (cases "newDate (pivotYear now y) mo dd")
        case None
        with mo dd pd ylt rule show ?thesis
          unfolding getAgeFromBirth_def tr_yy sp1_yy by (simp add: pyy Let_def)
      next
        case (Some birth)
        with mo dd pd ylt rule show ?thesis
          unfolding getAgeFromBirth_def tr_yy sp1_yy by (simp add: pyy ageOn_def Let_def)
      qed
    qed
  qed
  show ?thesis
    using f b a a2 unfolding y_def yy_def y4_def by simp
qed

text \<open>
  In 2025 the pivot is 35: 80 becomes 1980 and 22 becomes 2022, and on 15 June 2025 the
  ages are 45 and 3.
\<close>

theorem two_digit_year_pivot_witness:
  "getFullYear (days_from_civil 2025 6 15) = 2025 \<and>
   formatDate (days_from_civil 2025 6 15) ''10-MAY-80'' = ''10-MAY-1980'' \<and>
   getBirthYearFromBirth (days_from_civil 2025 6 15) ''10-MAY-80'' = Some 1980 \<and>
   getAgeFromBirth (days_from_civil 2025 6 15) ''10-MAY-80'' = Some 45 \<and>
   getAgeFromBirth (days_from_civil 2025 6 15) ''10-MAY-1980'' = Some 45 \<and>
   newDate 1980 4 10 = Some (days_from_civil 1980 5 10) \<and>
   ageOn (days_from_civil 2025 6 15) (days_from_civil 1980 5 10) = Some 45 \<and>
   formatDate (days_from_civil 2025 6 15) ''10-MAY-22'' = ''10-MAY-2022'' \<and>
   getBirthYearFromBirth (days_from_civil 2025 6 15) ''10-MAY-22'' = Some 2022 \<and>
   getAgeFromBirth (days_from_civil 2025 6 15) ''10-MAY-22'' = Some 3 \<and>
   newDate 2022 4 10 = Some (days_from_civil 2022 5 10) \<and>
   ageOn (days_from_civil 2025 6 15) (days_from_civil 2022 5 10) = Some 3"
proof -
  let ?now = "days_from_civil 2025 6 15"
  have y: "getFullYear ?now = 2025"
    by code_simp
  have d: "is_digit CHR ''8''" "is_digit CHR ''0''" "is_digit CHR ''2''"
    by (simp_all add: is_digit_iff)
  have dv: "digit_val CHR ''8'' = 8" "digit_val CHR ''0'' = 0" "digit_val CHR ''2'' = 2"
    by (simp_all add: digit_val_def)
  have p80: "pivotYear ?now 80 = 1980"
    by code_simp
  have p22: "pivotYear ?now 22 = 2022"
    by code_simp
  have s80: "show_int 1980 = ''1980''"
    by code_simp
  have s22: "show_int 2022 = ''2022''"
    by code_simp
  have mo: "months (take 3 (toUpperCase ''MAY'')) = Some 4"
    by code_simp
  have dd: "parseInt ''10'' = Some 10"
    by code_simp
  have n80: "newDate 1980 4 10 = Some (days_from_civil 1980 5 10)"
    by code_simp
  have n22: "newDate 2022 4 10 = Some (days_from_civil 2022 5 10)"
    by code_simp
  have a80: "ageOn ?now (days_from_civil 1980 5 10) = Some 45"
    by code_simp
  have a22: "ageOn ?now (days_from_civil 2022 5 10) = Some 3"
    by code_simp
  have a1980: "getAgeFromBirth ?now ''10-MAY-1980'' = Some 45"
    by code_simp
  have a2022: "getAgeFromBirth ?now ''10-MAY-2022'' = Some 3"
    by code_simp
  have t80:
    "formatDate ?now ''10-MAY-80'' = ''10-MAY-1980'' \<and>
     getBirthYearFromBirth ?now ''10-MAY-80'' = Some 1980 \<and>
     getAgeFromBirth ?now ''10-MAY-80'' = getAgeFromBirth ?now ''10-MAY-1980'' \<and>
     getAgeFromBirth ?now ''10-MAY-80'' = Some 45"
    using two_digit_year_pivot[of "CHR ''8''" "CHR ''0''" "''10''" "''MAY''" ?now]
    by (simp add: y d dv p80 s80 mo dd n80 a80 a1980)
  have t22:
    "formatDate ?now ''10-MAY-22'' = ''10-MAY-2022'' \<and>
     getBirthYearFromBirth ?now ''10-MAY-22'' = Some 2022 \<and>
     getAgeFromBirth ?now ''10-MAY-22'' = Some 3"
    using two_digit_year_pivot[of "CHR ''2''" "CHR ''2''" "''10''" "''MAY''" ?now]
    by (simp add: y d dv p22 s22 mo dd n22 a22 a2022)
  from t80 t22 a1980 y n80 n22 a80 a22 show ?thesis
    by (intro conjI) (simp_all only:)
qed

section \<open>The order of the upcoming birthdays\<close>

text \<open>
  C4.  \<^const>\<open>getUpcomingBirthdays\<close> sorts the keys \<^verbatim>\<open>d-MMM-yyyy\<close> as strings.  On
  9 January 2026, looking two days ahead over the data set, the entry of 10 January comes
  before the entry of 9 January: the list is not in ascending order of date.
\<close>

theorem getUpcomingBirthdays_order:
  "map dateStr (getUpcomingBirthdays familyStore (days_from_civil 2026 1 9) 2) =
     [''10-JAN-2026'', ''9-JAN-2026''] \<and>
   map date (getUpcomingBirthdays familyStore (days_from_civil 2026 1 9) 2) =
     [days_from_civil 2026 1 9 + 1, days_from_civil 2026 1 9] \<and>
   map (map bp_id \<circ> persons) (getUpcomingBirthdays familyStore (days_from_civil 2026 1 9) 2) =
     [[''M'', ''X''], [''Q'', ''Y'']]"
  by code_simp

section \<open>Both path walks are one breadth-first search\<close>

text \<open>
  The successors the two walks follow: the parents of a person of \<^verbatim>\<open>peopleMap\<close>, and the
  children \<^verbatim>\<open>childrenMap\<close> lists for an id.
\<close>

definition parentsIn :: "people_map \<Rightarrow> string \<Rightarrow> string list" where
  "parentsIn pm c = (case map_of pm c of Some p \<Rightarrow> parentsOf p | None \<Rightarrow> [])"

definition childrenIn :: "children_map \<Rightarrow> string \<Rightarrow> string list" where
  "childrenIn cm c = (case map_of cm c of Some cs \<Rightarrow> cs | None \<Rightarrow> [])"

text \<open>
  The walk both path functions perform, over any successor function; only the ids in
  \<open>nodes\<close> have successors, which makes the search total.
\<close>

function bfs ::
  "'a list \<Rightarrow> ('a \<Rightarrow> 'a list) \<Rightarrow> 'a \<Rightarrow> ('a \<times> 'a list) list \<Rightarrow> 'a set \<Rightarrow> 'a list option" where
  "bfs nodes succs target [] visited = None"
| "bfs nodes succs target ((c, path) # rest) visited =
     (if c \<in> visited then bfs nodes succs target rest visited
      else if c = target then Some path
      else bfs nodes succs target
             (rest @ map (\<lambda>n. (n, path @ [n])) (if c \<in> set nodes then succs c else []))
             (insert c visited))"
  by pat_completeness auto
termination
proof (relation "measures [\<lambda>(nodes, succs, target, queue, visited). card (set nodes - visited),
                           \<lambda>(nodes, succs, target, queue, visited). length queue]", goal_cases)
  case 1
  then show ?case by simp
next
  case (2 nodes succs target c path rest visited)
  then show ?case by simp
next
  case (3 nodes succs target c path rest visited)
  show ?case
  proof (cases "c \<in> set nodes")
    case True
    with 3 have "card (set nodes - insert c visited) < card (set nodes - visited)"
      by (metis Diff_insert DiffI card_Diff1_less finite_Diff finite_set)
    then show ?thesis by simp
  next
    case False
    then have "set nodes - insert c visited = set nodes - visited" by auto
    with False show ?thesis by simp
  qed
qed

declare bfs.simps [simp del]

lemma bfs_Nil: "bfs nodes succs target [] visited = None"
  by (simp add: bfs.simps)

lemma bfs_visited:
  "c \<in> visited \<Longrightarrow>
   bfs nodes succs target ((c, path) # rest) visited = bfs nodes succs target rest visited"
  by (simp add: bfs.simps)

lemma bfs_found:
  "c \<notin> visited \<Longrightarrow> c = target \<Longrightarrow>
   bfs nodes succs target ((c, path) # rest) visited = Some path"
  by (simp add: bfs.simps)

lemma bfs_expand:
  "c \<notin> visited \<Longrightarrow> c \<noteq> target \<Longrightarrow>
   bfs nodes succs target ((c, path) # rest) visited =
   bfs nodes succs target
     (rest @ map (\<lambda>n. (n, path @ [n])) (if c \<in> set nodes then succs c else []))
     (insert c visited)"
  by (simp add: bfs.simps)

lemma getAncestorPath_loop_bfs:
  "getAncestorPath_loop pm target queue visited = bfs (map fst pm) (parentsIn pm) target queue visited"
proof (induction pm target queue visited rule: getAncestorPath_loop.induct)
  case (1 pm target visited)
  show ?case by (simp add: getAncestorPath_loop.simps bfs.simps)
next
  case (2 pm target cid path rest visited)
  show ?case
  proof (cases "cid \<in> visited")
    case True
    with 2(1) show ?thesis by (simp add: getAncestorPath_loop.simps bfs.simps)
  next
    case nv: False
    show ?thesis
    proof (cases "cid = target")
      case True
      with nv show ?thesis by (simp add: getAncestorPath_loop.simps bfs.simps)
    next
      case nt: False
      show ?thesis
      proof (cases "map_of pm cid")
        case None
        then have "cid \<notin> set (map fst pm)" by (simp add: map_of_eq_None_iff)
        with 2(2)[OF nv nt None] nv nt None show ?thesis
          by (simp add: getAncestorPath_loop.simps bfs.simps)
      next
        case (Some p)
        then have k: "cid \<in> set (map fst pm)"
          by (metis map_of_eq_None_iff option.distinct(1) set_map)
        have q: "(case truthy (mid p) of
                    Some m \<Rightarrow> (case truthy (fid p) of
                            Some f \<Rightarrow> rest @ [(f, path @ [f])]
                          | None \<Rightarrow> rest) @ [(m, path @ [m])]
                  | None \<Rightarrow> (case truthy (fid p) of
                            Some f \<Rightarrow> rest @ [(f, path @ [f])]
                          | None \<Rightarrow> rest))
                 = rest @ map (\<lambda>n. (n, path @ [n])) (parentsIn pm cid)"
          by (cases "truthy (fid p)"; cases "truthy (mid p)")
             (simp_all add: parentsIn_def parentsOf_def Some)
        from 2(3)[OF nv nt Some refl refl] nv nt Some k show ?thesis
          by (simp add: getAncestorPath_loop.simps bfs.simps q Let_def)
      qed
    qed
  qed
qed

lemma getDescendantPath_loop_bfs:
  "getDescendantPath_loop cm target queue visited = bfs (map fst cm) (childrenIn cm) target queue visited"
proof (induction cm target queue visited rule: getDescendantPath_loop.induct)
  case (1 cm target visited)
  show ?case by (simp add: getDescendantPath_loop.simps bfs.simps)
next
  case (2 cm target cid path rest visited)
  show ?case
  proof (cases "cid \<in> visited")
    case True
    with 2(1) show ?thesis by (simp add: getDescendantPath_loop.simps bfs.simps)
  next
    case nv: False
    show ?thesis
    proof (cases "cid = target")
      case True
      with nv show ?thesis by (simp add: getDescendantPath_loop.simps bfs.simps)
    next
      case nt: False
      have c: "(if cid \<in> set (map fst cm) then childrenIn cm cid else []) =
               (case map_of cm cid of Some cs \<Rightarrow> cs | None \<Rightarrow> [])"
      proof (cases "map_of cm cid")
        case None
        then have "cid \<notin> set (map fst cm)" by (simp add: map_of_eq_None_iff)
        with None show ?thesis by simp
      next
        case (Some cs)
        then have "cid \<in> set (map fst cm)"
          by (metis map_of_eq_None_iff option.distinct(1) set_map)
        with Some show ?thesis by (simp add: childrenIn_def)
      qed
      have "getDescendantPath_loop cm target ((cid, path) # rest) visited =
            getDescendantPath_loop cm target
              (rest @ map (\<lambda>child. (child, path @ [child]))
                 (case map_of cm cid of Some cs \<Rightarrow> cs | None \<Rightarrow> []))
              (insert cid visited)"
        using nv nt by (simp add: getDescendantPath_loop.simps Let_def)
      also have "\<dots> = bfs (map fst cm) (childrenIn cm) target
              (rest @ map (\<lambda>child. (child, path @ [child]))
                 (case map_of cm cid of Some cs \<Rightarrow> cs | None \<Rightarrow> []))
              (insert cid visited)"
        by (rule 2(2)[OF nv nt refl refl])
      also have "\<dots> = bfs (map fst cm) (childrenIn cm) target ((cid, path) # rest) visited"
        unfolding bfs_expand[OF nv nt] c ..
      finally show ?thesis .
    qed
  qed
qed

section \<open>The search returns a shortest path\<close>

lemma sorted_map_const: "sorted (map (\<lambda>x. k) xs)"
  by (induction xs) auto

lemma lengths_rest_le_new:
  fixes rest :: "('a \<times> 'a list) list" and p :: "'a list"
  assumes lens: "\<And>e. e \<in> set rest \<Longrightarrow> length p \<le> length (snd e) \<and> length (snd e) \<le> length p + 1"
  shows "\<forall>x \<in> set (map (\<lambda>e. length (snd e)) rest).
             \<forall>y \<in> set (map (\<lambda>e. length (snd e)) (map (\<lambda>n. (n, p @ [n])) ns)). x \<le> y"
proof (intro ballI)
  fix x y
  assume ax: "x \<in> set (map (\<lambda>e. length (snd e)) rest)"
    and ay: "y \<in> set (map (\<lambda>e. length (snd e)) (map (\<lambda>n. (n, p @ [n])) ns))"
  from ax obtain e where e: "e \<in> set rest" "x = length (snd e)"
    by (auto simp: image_iff)
  from ay have y: "y = length p + 1"
    by (auto simp: image_iff)
  from lens[OF e(1)] e(2) y show "x \<le> y" by simp
qed

lemma sorted_lengths_append:
  fixes rest :: "('a \<times> 'a list) list" and p :: "'a list"
  assumes 1: "sorted (map (\<lambda>e. length (snd e)) rest)"
   and 2: "sorted (map (\<lambda>e. length (snd e)) new)"
   and 3: "\<forall>x \<in> set (map (\<lambda>e. length (snd e)) rest).
             \<forall>y \<in> set (map (\<lambda>e. length (snd e)) new). x \<le> y"
  shows "sorted (map (\<lambda>e. length (snd e)) (rest @ new))"
  unfolding map_append sorted_append using 1 2 3 by (intro conjI)


text \<open>\<open>walk succs k s t\<close>: \<open>t\<close> is reached from \<open>s\<close> in \<open>k\<close> steps along \<open>succs\<close>.\<close>

inductive walk :: "('a \<Rightarrow> 'a list) \<Rightarrow> nat \<Rightarrow> 'a \<Rightarrow> 'a \<Rightarrow> bool" for succs where
  walk_refl: "walk succs 0 s s"
| walk_step: "walk succs k s m \<Longrightarrow> t \<in> set (succs m) \<Longrightarrow> walk succs (Suc k) s t"

text \<open>
  The invariant of the search from \<open>s\<close> for \<open>t\<close>: every queue entry carries a walk
  from \<open>s\<close>, the queue is ordered by path length and its lengths differ by at most one,
  the target is unvisited, every successor of a visited id is visited or queued with a
  path no longer than any walk through that id, and the source is visited or queued.
\<close>

definition bfs_inv ::
  "('a \<Rightarrow> 'a list) \<Rightarrow> 'a \<Rightarrow> 'a \<Rightarrow> ('a \<times> 'a list) list \<Rightarrow> 'a set \<Rightarrow> bool" where
  "bfs_inv sx s t q V \<longleftrightarrow>
     (\<forall>e \<in> set q. snd e \<noteq> [] \<and> walk sx (length (snd e) - 1) s (fst e)) \<and>
     sorted (map (\<lambda>e. length (snd e)) q) \<and>
     (\<forall>e \<in> set q. \<forall>e' \<in> set q. length (snd e) \<le> length (snd e') + 1) \<and>
     t \<notin> V \<and>
     (\<forall>v \<in> V. \<forall>n \<in> set (sx v). \<forall>k. walk sx k s v \<longrightarrow>
        n \<in> V \<or> (\<exists>p. (n, p) \<in> set q \<and> length p \<le> k + 2)) \<and>
     (s \<in> V \<or> (\<exists>p. (s, p) \<in> set q \<and> length p = 1))"

lemma bfs_inv_init: "bfs_inv sx s t [(s, [s])] {}"
  by (simp add: bfs_inv_def walk_refl)

lemma walk_exit:
  "walk sx k s c \<Longrightarrow> c \<notin> V \<Longrightarrow>
   s \<notin> V \<or> (\<exists>j v n. j < k \<and> walk sx j s v \<and> v \<in> V \<and> n \<in> set (sx v) \<and> n \<notin> V)"
proof (induction rule: walk.induct)
  case (walk_refl s)
  then show ?case by simp
next
  case (walk_step k s m t)
  show ?case
  proof (cases "m \<in> V")
    case True
    with walk_step show ?thesis by blast
  next
    case False
    from walk_step.IH[OF False] show ?thesis
      by (metis less_Suc_eq)
  qed
qed

lemma head_minimal:
  assumes inv: "bfs_inv sx s t ((c, p) # rest) V" and "c \<notin> V" and w: "walk sx k s c"
  shows "length p \<le> k + 1"
proof -
  have hd_min: "length p \<le> length p'" if "(n, p') \<in> set ((c, p) # rest)" for n p'
    using inv that by (auto simp: bfs_inv_def)
  from walk_exit[OF w \<open>c \<notin> V\<close>] show ?thesis
  proof
    assume "s \<notin> V"
    with inv obtain p' where "(s, p') \<in> set ((c, p) # rest)" "length p' = 1"
      by (auto simp: bfs_inv_def)
    with hd_min[of s p'] show ?thesis by simp
  next
    assume "\<exists>j v n. j < k \<and> walk sx j s v \<and> v \<in> V \<and> n \<in> set (sx v) \<and> n \<notin> V"
    then obtain j v n where j: "j < k" "walk sx j s v" "v \<in> V" "n \<in> set (sx v)" "n \<notin> V"
      by blast
    with inv obtain p' where "(n, p') \<in> set ((c, p) # rest)" "length p' \<le> j + 2"
      unfolding bfs_inv_def by blast
    with hd_min[of n p'] j(1) show ?thesis by simp
  qed
qed

lemma no_walk_when_empty:
  assumes inv: "bfs_inv sx s t [] V"
  shows "\<not> walk sx k s t"
proof
  assume w: "walk sx k s t"
  have "t \<notin> V" using inv by (simp add: bfs_inv_def)
  from walk_exit[OF w this] show False
  proof
    assume "s \<notin> V"
    with inv show False by (simp add: bfs_inv_def)
  next
    assume "\<exists>j v n. j < k \<and> walk sx j s v \<and> v \<in> V \<and> n \<in> set (sx v) \<and> n \<notin> V"
    then obtain j v n where j: "walk sx j s v" "v \<in> V" "n \<in> set (sx v)" "n \<notin> V"
      by blast
    with inv show False unfolding bfs_inv_def by fastforce
  qed
qed

lemma bfs_inv_skip:
  assumes inv: "bfs_inv sx s t ((c, p) # rest) V" and "c \<in> V"
  shows "bfs_inv sx s t rest V"
  unfolding bfs_inv_def
proof (intro conjI)
  show "\<forall>e \<in> set rest. snd e \<noteq> [] \<and> walk sx (length (snd e) - 1) s (fst e)"
    using inv by (simp add: bfs_inv_def)
  show "sorted (map (\<lambda>e. length (snd e)) rest)"
    using inv by (simp add: bfs_inv_def)
  show "\<forall>e \<in> set rest. \<forall>e' \<in> set rest. length (snd e) \<le> length (snd e') + 1"
    using inv by (simp add: bfs_inv_def)
  show "t \<notin> V" using inv by (simp add: bfs_inv_def)
  show "\<forall>v \<in> V. \<forall>n \<in> set (sx v). \<forall>k. walk sx k s v \<longrightarrow>
        n \<in> V \<or> (\<exists>p. (n, p) \<in> set rest \<and> length p \<le> k + 2)"
  proof (intro ballI allI impI)
    fix v n k assume a: "v \<in> V" "n \<in> set (sx v)" "walk sx k s v"
    with inv have "n \<in> V \<or> (\<exists>p'. (n, p') \<in> set ((c, p) # rest) \<and> length p' \<le> k + 2)"
      unfolding bfs_inv_def by blast
    with \<open>c \<in> V\<close> show "n \<in> V \<or> (\<exists>p. (n, p) \<in> set rest \<and> length p \<le> k + 2)"
      by auto
  qed
  show "s \<in> V \<or> (\<exists>p. (s, p) \<in> set rest \<and> length p = 1)"
    using inv \<open>c \<in> V\<close> by (auto simp: bfs_inv_def)
qed

lemma expand_lens:
  assumes inv: "bfs_inv sx s t ((c, p) # rest) V"
  shows "e \<in> set rest \<Longrightarrow> length p \<le> length (snd e) \<and> length (snd e) \<le> length p + 1"
  using inv by (auto simp: bfs_inv_def)

lemma expand_walks:
  assumes inv: "bfs_inv sx s t ((c, p) # rest) V"
  shows "\<forall>e \<in> set (rest @ map (\<lambda>n. (n, p @ [n])) (sx c)).
           snd e \<noteq> [] \<and> walk sx (length (snd e) - 1) s (fst e)"
proof
  have p: "p \<noteq> []" "walk sx (length p - 1) s c"
    using inv by (simp_all add: bfs_inv_def)
  fix e assume "e \<in> set (rest @ map (\<lambda>n. (n, p @ [n])) (sx c))"
  then consider "e \<in> set rest" | n where "n \<in> set (sx c)" "e = (n, p @ [n])" by auto
  then show "snd e \<noteq> [] \<and> walk sx (length (snd e) - 1) s (fst e)"
  proof cases
    case 1
    with inv show ?thesis by (simp add: bfs_inv_def)
  next
    case 2
    have "walk sx (Suc (length p - 1)) s n"
      by (rule walk_step[OF p(2) 2(1)])
    with p(1) 2 show ?thesis by simp
  qed
qed

lemma expand_sorted:
  assumes inv: "bfs_inv sx s t ((c, p) # rest) V"
  shows "sorted (map (\<lambda>e. length (snd e)) (rest @ map (\<lambda>n. (n, p @ [n])) (sx c)))"
proof -
  have 1: "sorted (map (\<lambda>e. length (snd e)) rest)" using inv by (simp add: bfs_inv_def)
  have "map (\<lambda>e. length (snd e)) (map (\<lambda>n. (n, p @ [n])) (sx c)) = map (\<lambda>n. length p + 1) (sx c)"
    by simp
  then have 2: "sorted (map (\<lambda>e. length (snd e)) (map (\<lambda>n. (n, p @ [n])) (sx c)))"
    by (simp only: sorted_map_const)
  have 3: "\<forall>x \<in> set (map (\<lambda>e. length (snd e)) rest).
             \<forall>y \<in> set (map (\<lambda>e. length (snd e)) (map (\<lambda>n. (n, p @ [n])) (sx c))). x \<le> y"
    using expand_lens[OF inv] by (intro lengths_rest_le_new) blast
  show ?thesis
    using 1 2 3 by (rule sorted_lengths_append)
qed

lemma expand_close:
  assumes inv: "bfs_inv sx s t ((c, p) # rest) V"
  shows "\<forall>e \<in> set (rest @ map (\<lambda>n. (n, p @ [n])) (sx c)).
         \<forall>e' \<in> set (rest @ map (\<lambda>n. (n, p @ [n])) (sx c)). length (snd e) \<le> length (snd e') + 1"
proof -
  have b: "length p \<le> length (snd e) \<and> length (snd e) \<le> length p + 1"
    if "e \<in> set (rest @ map (\<lambda>n. (n, p @ [n])) (sx c))" for e
  proof -
    from that consider "e \<in> set rest" | n where "e = (n, p @ [n])" by auto
    then show ?thesis
    proof cases
      case 1
      then show ?thesis by (rule expand_lens[OF inv])
    next
      case 2
      then show ?thesis by simp
    qed
  qed
  show ?thesis
  proof (intro ballI)
    fix e e'
    assume "e \<in> set (rest @ map (\<lambda>n. (n, p @ [n])) (sx c))"
       and "e' \<in> set (rest @ map (\<lambda>n. (n, p @ [n])) (sx c))"
    from b[OF this(1)] b[OF this(2)] show "length (snd e) \<le> length (snd e') + 1" by simp
  qed
qed

lemma expand_frontier:
  assumes inv: "bfs_inv sx s t ((c, p) # rest) V" and nv: "c \<notin> V"
  shows "\<forall>v \<in> insert c V. \<forall>n \<in> set (sx v). \<forall>k. walk sx k s v \<longrightarrow>
        n \<in> insert c V \<or>
        (\<exists>p'. (n, p') \<in> set (rest @ map (\<lambda>n. (n, p @ [n])) (sx c)) \<and> length p' \<le> k + 2)"
proof (intro ballI allI impI)
  fix v n k assume a: "v \<in> insert c V" "n \<in> set (sx v)" "walk sx k s v"
  show "n \<in> insert c V \<or>
        (\<exists>p'. (n, p') \<in> set (rest @ map (\<lambda>n. (n, p @ [n])) (sx c)) \<and> length p' \<le> k + 2)"
  proof (cases "v = c")
    case True
    with head_minimal[OF inv nv] a(3) have "length p \<le> k + 1" by simp
    then have "length (p @ [n]) \<le> k + 2" by simp
    moreover have "(n, p @ [n]) \<in> set (rest @ map (\<lambda>n. (n, p @ [n])) (sx c))"
      using a(2) True by simp
    ultimately show ?thesis by blast
  next
    case False
    with a(1) have "v \<in> V" by simp
    with inv a(2,3) have "n \<in> V \<or> (\<exists>p'. (n, p') \<in> set ((c, p) # rest) \<and> length p' \<le> k + 2)"
      unfolding bfs_inv_def by blast
    then consider "n \<in> V" | "n = c" | p' where "(n, p') \<in> set rest" "length p' \<le> k + 2"
      by auto
    then show ?thesis
    proof cases
      case 1 then show ?thesis by simp
    next
      case 2 then show ?thesis by simp
    next
      case 3
      then have "(n, p') \<in> set (rest @ map (\<lambda>n. (n, p @ [n])) (sx c))" by simp
      with 3(2) show ?thesis by blast
    qed
  qed
qed

lemma expand_source:
  assumes inv: "bfs_inv sx s t ((c, p) # rest) V"
  shows "s \<in> insert c V \<or>
         (\<exists>p'. (s, p') \<in> set (rest @ map (\<lambda>n. (n, p @ [n])) (sx c)) \<and> length p' = 1)"
proof -
  from inv have "s \<in> V \<or> (\<exists>p'. (s, p') \<in> set ((c, p) # rest) \<and> length p' = 1)"
    by (simp add: bfs_inv_def)
  then consider "s \<in> V" | "s = c" | p' where "(s, p') \<in> set rest" "length p' = 1"
    by auto
  then show ?thesis
  proof cases
    case 1 then show ?thesis by simp
  next
    case 2 then show ?thesis by simp
  next
    case 3
    then have "(s, p') \<in> set (rest @ map (\<lambda>n. (n, p @ [n])) (sx c))" by simp
    with 3(2) show ?thesis by blast
  qed
qed

lemma bfs_inv_expand:
  assumes inv: "bfs_inv sx s t ((c, p) # rest) V" and nv: "c \<notin> V" and nt: "c \<noteq> t"
  shows "bfs_inv sx s t (rest @ map (\<lambda>n. (n, p @ [n])) (sx c)) (insert c V)"
proof -
  have "t \<notin> insert c V" using inv nt by (auto simp: bfs_inv_def)
  with expand_walks[OF inv] expand_sorted[OF inv] expand_close[OF inv]
       expand_frontier[OF inv nv] expand_source[OF inv]
  show ?thesis unfolding bfs_inv_def by (intro conjI)
qed

theorem bfs_shortest:
  assumes "bfs_inv (\<lambda>c. if c \<in> set nodes then succs c else []) s t q V"
  shows "case bfs nodes succs t q V of
           Some p \<Rightarrow> p \<noteq> [] \<and> walk (\<lambda>c. if c \<in> set nodes then succs c else []) (length p - 1) s t \<and>
                     (\<forall>k. walk (\<lambda>c. if c \<in> set nodes then succs c else []) k s t \<longrightarrow> length p \<le> k + 1)
         | None \<Rightarrow> \<forall>k. \<not> walk (\<lambda>c. if c \<in> set nodes then succs c else []) k s t"
  using assms
proof (induction nodes succs t q V rule: bfs.induct)
  case (1 nodes succs target visited)
  then show ?case by (simp add: bfs_Nil no_walk_when_empty)
next
  case (2 nodes succs target c path rest visited)
  let ?sx = "\<lambda>c. if c \<in> set nodes then succs c else []"
  show ?case
  proof (cases "c \<in> visited")
    case True
    from "2.IH"(1)[OF True bfs_inv_skip[OF "2.prems" True]] show ?thesis
      by (simp only: bfs_visited[OF True])
  next
    case nv: False
    show ?thesis
    proof (cases "c = target")
      case True
      have "path \<noteq> []" "walk ?sx (length path - 1) s c"
        using "2.prems" by (simp_all add: bfs_inv_def)
      moreover have "\<forall>k. walk ?sx k s c \<longrightarrow> length path \<le> k + 1"
        using head_minimal[OF "2.prems" nv] by blast
      ultimately show ?thesis unfolding bfs_found[OF nv True] using True by simp
    next
      case nt: False
      from "2.IH"(2)[OF nv nt bfs_inv_expand[OF "2.prems" nv nt]] show ?thesis
        by (simp only: bfs_expand[OF nv nt])
    qed
  qed
qed

section \<open>Up and down distances in a built store\<close>

lemma walk_step_left:
  "walk f k m t \<Longrightarrow> m \<in> set (f s) \<Longrightarrow> walk f (Suc k) s t"
proof (induction rule: walk.induct)
  case (walk_refl m)
  have "walk f 0 s s" by (rule walk.walk_refl)
  from walk.walk_step[OF this walk_refl] show ?case .
next
  case (walk_step k m u t)
  from walk.walk_step[OF walk_step.IH[OF walk_step.prems] walk_step.hyps(2)] show ?case .
qed

lemma walk_reverse:
  assumes "\<And>a b. b \<in> set (f a) \<longleftrightarrow> a \<in> set (g b)"
  shows "walk f k s t \<Longrightarrow> walk g k t s"
proof (induction rule: walk.induct)
  case (walk_refl s)
  show ?case by (rule walk.walk_refl)
next
  case (walk_step k s m t)
  from walk_step.hyps(2) assms have "m \<in> set (g t)" by simp
  from walk_step_left[OF walk_step.IH this] show ?case .
qed

lemma restrict_parentsIn:
  "(\<lambda>c. if c \<in> set (map fst pm) then parentsIn pm c else []) = parentsIn pm"
proof
  fix c
  show "(if c \<in> set (map fst pm) then parentsIn pm c else []) = parentsIn pm c"
  proof (cases "map_of pm c")
    case None
    then show ?thesis by (simp add: parentsIn_def)
  next
    case (Some p)
    then have "c \<in> set (map fst pm)"
      by (metis map_of_eq_None_iff option.distinct(1) set_map)
    then show ?thesis by simp
  qed
qed

lemma restrict_childrenIn:
  "(\<lambda>c. if c \<in> set (map fst cm) then childrenIn cm c else []) = childrenIn cm"
proof
  fix c
  show "(if c \<in> set (map fst cm) then childrenIn cm c else []) = childrenIn cm c"
  proof (cases "map_of cm c")
    case None
    then show ?thesis by (simp add: childrenIn_def)
  next
    case (Some p)
    then have "c \<in> set (map fst cm)"
      by (metis map_of_eq_None_iff option.distinct(1) set_map)
    then show ?thesis by simp
  qed
qed

lemma getAncestorPath_shortest:
  "case getAncestorPath st x a of
     Some p \<Rightarrow> p \<noteq> [] \<and> walk (parentsIn (peopleMap st)) (length p - 1) x a \<and>
               (\<forall>k. walk (parentsIn (peopleMap st)) k x a \<longrightarrow> length p \<le> k + 1)
   | None \<Rightarrow> \<forall>k. \<not> walk (parentsIn (peopleMap st)) k x a"
  using bfs_shortest[of "map fst (peopleMap st)" "parentsIn (peopleMap st)" x a "[(x, [x])]" "{}"]
  unfolding restrict_parentsIn getAncestorPath_def getAncestorPath_loop_bfs
  by (simp only: bfs_inv_init simp_thms)

lemma getDescendantPath_shortest:
  "case getDescendantPath st a y of
     Some p \<Rightarrow> p \<noteq> [] \<and> walk (childrenIn (childrenMap st)) (length p - 1) a y \<and>
               (\<forall>k. walk (childrenIn (childrenMap st)) k a y \<longrightarrow> length p \<le> k + 1)
   | None \<Rightarrow> \<forall>k. \<not> walk (childrenIn (childrenMap st)) k a y"
  using bfs_shortest[of "map fst (childrenMap st)" "childrenIn (childrenMap st)" a y "[(a, [a])]" "{}"]
  unfolding restrict_childrenIn getDescendantPath_def getDescendantPath_loop_bfs
  by (simp only: bfs_inv_init simp_thms)

lemma map_of_indexPeople_people:
  "distinct (map id' people) \<Longrightarrow>
   map_of (fst (indexPeople people (pm, cm))) k =
     (case find (\<lambda>p. id' p = k) people of Some p \<Rightarrow> Some p | None \<Rightarrow> map_of pm k)"
proof (induction people arbitrary: pm cm)
  case Nil
  then show ?case by simp
next
  case (Cons p rest)
  have d: "distinct (map id' rest)" and n: "id' p \<notin> id' ` set rest"
    using Cons.prems by simp_all
  have nf: "find (\<lambda>q. id' q = id' p) rest = None"
    unfolding find_None_iff using n by (metis imageI)
  show ?case
    using n nf by (auto simp: Cons.IH[OF d] Let_def map_of_map_set split: option.splits)
qed

lemma peopleMap_buildLookups:
  assumes "distinct (map id' people)"
  shows "map_of (peopleMap (buildLookups people g)) c = Some p \<longleftrightarrow> p \<in> set people \<and> id' p = c"
proof -
  obtain pm cm where ic: "indexPeople people ([], []) = (pm, cm)"
    by (cases "indexPeople people ([], [])")
  have pm: "peopleMap (buildLookups people g) = pm"
    by (simp add: buildLookups_def ic)
  have m: "map_of pm c = find (\<lambda>p. id' p = c) people"
    using map_of_indexPeople_people[OF assms, of "[]" "[]" c] ic
    by (simp split: option.splits)
  have "find (\<lambda>p. id' p = c) people = Some p \<longleftrightarrow> p \<in> set people \<and> id' p = c"
  proof
    assume "find (\<lambda>p. id' p = c) people = Some p"
    then show "p \<in> set people \<and> id' p = c"
      by (auto simp: find_Some_iff)
  next
    assume a: "p \<in> set people \<and> id' p = c"
    then obtain q where q: "find (\<lambda>p. id' p = c) people = Some q"
      by (cases "find (\<lambda>p. id' p = c) people") (auto simp: find_None_iff)
    then have "q \<in> set people" "id' q = c" by (auto simp: find_Some_iff)
    with a assms have "q = p" by (auto simp: distinct_map inj_on_def)
    with q show "find (\<lambda>p. id' p = c) people = Some p" by simp
  qed
  then show ?thesis by (simp add: pm m)
qed

lemma set_parentsOf:
  "n \<in> set (parentsOf p) \<longleftrightarrow> truthy (fid p) = Some n \<or> truthy (mid p) = Some n"
  by (cases "truthy (fid p)"; cases "truthy (mid p)") (auto simp: parentsOf_def)

lemma set_childrenIn_buildLookups:
  "set (childrenIn (childrenMap (buildLookups people g)) n) = set (childrenOfRaw n people)"
  by (simp add: childrenIn_def childrenMap_buildLookups)

lemma edges_buildLookups:
  assumes "distinct (map id' people)"
  shows "n \<in> set (parentsIn (peopleMap (buildLookups people g)) c)
         \<longleftrightarrow> c \<in> set (childrenIn (childrenMap (buildLookups people g)) n)"
proof -
  have "n \<in> set (parentsIn (peopleMap (buildLookups people g)) c) \<longleftrightarrow>
        (\<exists>p. map_of (peopleMap (buildLookups people g)) c = Some p \<and> n \<in> set (parentsOf p))"
    by (cases "map_of (peopleMap (buildLookups people g)) c") (simp_all add: parentsIn_def)
  also have "\<dots> \<longleftrightarrow> (\<exists>p. p \<in> set people \<and> id' p = c \<and>
                     (truthy (fid p) = Some n \<or> truthy (mid p) = Some n))"
    by (simp add: peopleMap_buildLookups[OF assms] set_parentsOf)
  also have "\<dots> \<longleftrightarrow> c \<in> set (childrenIn (childrenMap (buildLookups people g)) n)"
    by (auto simp: set_childrenIn_buildLookups set_childrenOfRaw)
  finally show ?thesis .
qed

lemma walk_up_down:
  assumes "distinct (map id' people)"
  shows "walk (parentsIn (peopleMap (buildLookups people g))) k x a
         \<longleftrightarrow> walk (childrenIn (childrenMap (buildLookups people g))) k a x"
proof
  assume "walk (parentsIn (peopleMap (buildLookups people g))) k x a"
  then show "walk (childrenIn (childrenMap (buildLookups people g))) k a x"
    by (rule walk_reverse[rotated]) (rule edges_buildLookups[OF assms])
next
  assume "walk (childrenIn (childrenMap (buildLookups people g))) k a x"
  then show "walk (parentsIn (peopleMap (buildLookups people g))) k x a"
    by (rule walk_reverse[rotated]) (rule edges_buildLookups[OF assms, symmetric])
qed

lemma getAncestors_loop_reach:
  "k \<in> fst ` set (getAncestors_loop pm queue visited ancestors) \<Longrightarrow>
   k \<in> fst ` set ancestors \<or> (\<exists>e \<in> set queue. \<exists>j. walk (parentsIn pm) j (fst e) k)"
proof (induction pm queue visited ancestors rule: getAncestors_loop_cases)
  case (Nil pm visited ancestors)
  then show ?case by (simp add: getAncestors_loop_Nil)
next
  case (Visited pm cid depth rest visited ancestors)
  from Visited.prems have "k \<in> fst ` set (getAncestors_loop pm rest visited ancestors)"
    by (simp only: getAncestors_loop_visited[OF Visited.hyps])
  from Visited.IH[OF this] show ?case by auto
next
  case (Dangling pm cid depth rest visited ancestors)
  from Dangling.prems have "k \<in> fst ` set (getAncestors_loop pm rest (insert cid visited) ancestors)"
    by (simp only: getAncestors_loop_dangling[OF Dangling.hyps])
  from Dangling.IH[OF this] show ?case by auto
next
  case (Expand pm cid depth rest visited ancestors person)
  from Expand.prems have "k \<in> fst ` set (getAncestors_loop pm
        (rest @ map (\<lambda>p. (p, depth + 1)) (parentsOf person)) (insert cid visited)
        (map_set cid depth ancestors))"
    by (simp only: getAncestors_loop_expand[OF Expand.hyps])
  from Expand.IH[OF this] consider
      "k \<in> fst ` set ancestors" | "k = cid"
    | e j where "e \<in> set rest" "walk (parentsIn pm) j (fst e) k"
    | n j where "n \<in> set (parentsOf person)" "walk (parentsIn pm) j n k"
    by (auto simp: keys_map_set)
  then show ?case
  proof cases
    case 1
    then show ?thesis by simp
  next
    case 2
    have "walk (parentsIn pm) 0 cid k" unfolding 2 by (rule walk_refl)
    then show ?thesis by auto
  next
    case 3
    then show ?thesis by auto
  next
    case 4
    have "n \<in> set (parentsIn pm cid)" using 4(1) Expand.hyps(2) by (simp add: parentsIn_def)
    from walk_step_left[OF 4(2) this] show ?thesis by auto
  qed
qed

lemma getAncestors_reach:
  assumes "k \<in> fst ` set (getAncestors st x)"
  shows "\<exists>j. walk (parentsIn (peopleMap st)) j x k"
  using getAncestors_loop_reach[of k "peopleMap st" "[(x, 0)]" "{}" "[]"] assms
  by (simp add: getAncestors_def)

lemma sumDepth_keys:
  "sumDepth a1 a2 k = Some s \<Longrightarrow> k \<in> fst ` set a1 \<and> k \<in> fst ` set a2"
  by (auto simp: sumDepth_def split: option.splits dest!: map_of_SomeD intro: rev_image_eqI)

lemma bestAncestor_common:
  assumes "bestAncestor st x y = Some a"
  shows "a \<in> fst ` set (getAncestors st x) \<and> a \<in> fst ` set (getAncestors st y)"
proof -
  define a1 where "a1 = getAncestors st x"
  define a2 where "a2 = getAncestors st y"
  have ba: "fst (bestAncestor_loop (for_in_keys a1) a1 a2 (None, \<infinity>)) = Some a"
    using assms by (simp add: bestAncestor_def a1_def a2_def Let_def)
  have "\<exists>k \<in> set (for_in_keys a1). \<exists>s. sumDepth a1 a2 k = Some s \<and> enat s < \<infinity>"
  proof (rule ccontr)
    assume "\<not> ?thesis"
    then have "\<forall>k \<in> set (for_in_keys a1). \<forall>s. sumDepth a1 a2 k = Some s \<longrightarrow> \<not> enat s < \<infinity>"
      by blast
    from bestAncestor_loop_none[OF this, of None] ba show False by simp
  qed
  from bestAncestor_loop_some[OF this, of None] obtain anc s where
    "bestAncestor_loop (for_in_keys a1) a1 a2 (None, \<infinity>) = (Some anc, enat s)"
    "sumDepth a1 a2 anc = Some s"
    by blast
  with ba have "sumDepth a1 a2 a = Some s" by simp
  from sumDepth_keys[OF this] show ?thesis by (simp add: a1_def a2_def)
qed

lemma paths_meet:
  assumes d: "distinct (map id' people)"
    and k: "a \<in> fst ` set (getAncestors (buildLookups people g) x)"
  shows "\<exists>up down. getAncestorPath (buildLookups people g) x a = Some up \<and>
           getDescendantPath (buildLookups people g) a x = Some down \<and>
           length up = length down"
proof -
  let ?st = "buildLookups people g"
  from getAncestors_reach[OF k] obtain j where j: "walk (parentsIn (peopleMap ?st)) j x a" ..
  then have j': "walk (childrenIn (childrenMap ?st)) j a x"
    by (simp add: walk_up_down[OF d])
  from getAncestorPath_shortest[of ?st x a] j obtain up where
    up: "getAncestorPath ?st x a = Some up" "up \<noteq> []"
        "walk (parentsIn (peopleMap ?st)) (length up - 1) x a"
        "\<forall>k. walk (parentsIn (peopleMap ?st)) k x a \<longrightarrow> length up \<le> k + 1"
    by (cases "getAncestorPath ?st x a") auto
  from getDescendantPath_shortest[of ?st a x] j' obtain down where
    down: "getDescendantPath ?st a x = Some down" "down \<noteq> []"
        "walk (childrenIn (childrenMap ?st)) (length down - 1) a x"
        "\<forall>k. walk (childrenIn (childrenMap ?st)) k a x \<longrightarrow> length down \<le> k + 1"
    by (cases "getDescendantPath ?st a x") auto
  have "length up \<le> (length down - 1) + 1"
    using up(4) down(3) by (simp add: walk_up_down[OF d])
  moreover have "length down \<le> (length up - 1) + 1"
    using down(4) up(3) by (simp add: walk_up_down[OF d])
  ultimately have "length up = length down"
    using up(2) down(2) by (cases up; cases down) simp_all
  with up(1) down(1) show ?thesis by blast
qed

text \<open>
  C8.  In a store built from records with distinct ids, when \<^const>\<open>bestAncestor\<close> selects
  the same common ancestor for \<open>(x, y)\<close> and for \<open>(y, x)\<close>, all four paths exist and
  the distance pair of \<open>(x, y)\<close> is the swapped pair of \<open>(y, x)\<close>: the way up from
  \<open>x\<close> is as long as the way down to \<open>x\<close>, and likewise for \<open>y\<close>.
\<close>

theorem distances_swap:
  assumes "distinct (map id' people)"
    and "bestAncestor (buildLookups people g) x y = Some a"
    and "bestAncestor (buildLookups people g) y x = Some a"
  shows "\<exists>up down up' down'.
     getAncestorPath (buildLookups people g) x a = Some up \<and>
     getDescendantPath (buildLookups people g) a y = Some down \<and>
     getAncestorPath (buildLookups people g) y a = Some up' \<and>
     getDescendantPath (buildLookups people g) a x = Some down' \<and>
     int (length up) - 1 = int (length down') - 1 \<and>
     int (length down) - 1 = int (length up') - 1"
proof -
  from bestAncestor_common[OF assms(2)]
  have kx: "a \<in> fst ` set (getAncestors (buildLookups people g) x)"
    and ky: "a \<in> fst ` set (getAncestors (buildLookups people g) y)"
    by simp_all
  from paths_meet[OF assms(1) kx] obtain up down' where
    1: "getAncestorPath (buildLookups people g) x a = Some up"
       "getDescendantPath (buildLookups people g) a x = Some down'"
       "length up = length down'"
    by blast
  from paths_meet[OF assms(1) ky] obtain up' down where
    2: "getAncestorPath (buildLookups people g) y a = Some up'"
       "getDescendantPath (buildLookups people g) a y = Some down"
       "length up' = length down"
    by blast
  from 1 2 show ?thesis by simp
qed

text \<open>
  \<open>N\<close> and \<open>X\<close> are both children of \<open>P\<close>, the only common ancestor: the pair is
  \<open>(1, 1)\<close> both ways.
\<close>

theorem distances_swap_witness:
  "distinct (map id' family) \<and>
   bestAncestor familyStore ''N'' ''X'' = Some ''P'' \<and>
   bestAncestor familyStore ''X'' ''N'' = Some ''P'' \<and>
   getAncestorPath familyStore ''N'' ''P'' = Some [''N'', ''P''] \<and>
   getDescendantPath familyStore ''P'' ''X'' = Some [''P'', ''X''] \<and>
   getAncestorPath familyStore ''X'' ''P'' = Some [''X'', ''P''] \<and>
   getDescendantPath familyStore ''P'' ''N'' = Some [''P'', ''N'']"
proof -
  have d: "distinct (map id' family)"
    by (simp add: family_def newPerson_def)
  have b1: "bestAncestor familyStore ''N'' ''X'' = Some ''P''"
    by code_simp
  have b2: "bestAncestor familyStore ''X'' ''N'' = Some ''P''"
    by code_simp
  have p1: "getAncestorPath familyStore ''N'' ''P'' = Some [''N'', ''P'']"
    by code_simp
  have p2: "getDescendantPath familyStore ''P'' ''X'' = Some [''P'', ''X'']"
    by code_simp
  have p3: "getAncestorPath familyStore ''X'' ''P'' = Some [''X'', ''P'']"
    by code_simp
  have p4: "getDescendantPath familyStore ''P'' ''N'' = Some [''P'', ''N'']"
    by code_simp
  from distances_swap[of family familyGenders "''N''" "''X''" "''P''"] d b1 b2 p1 p2 p3 p4
  show ?thesis by (simp add: familyStore_def)
qed

text \<open>
  The claim as stated fails where the two calls select different ancestors.  \<open>X\<close> and
  \<open>Y\<close> have the common ancestors \<open>P\<close> and \<open>Q\<close>, both with depth sum 3; from \<open>X\<close>
  the loop meets \<open>P\<close> first, from \<open>Y\<close> it meets \<open>Q\<close> first.  The pair of
  \<open>(X, Y)\<close> is \<open>(1, 2)\<close> and the pair of \<open>(Y, X)\<close> is \<open>(1, 2)\<close> too, not \<open>(2, 1)\<close>.
\<close>

theorem distances_swap_counterexample:
  "distinct (map id' family) \<and>
   bestAncestor familyStore ''X'' ''Y'' = Some ''P'' \<and>
   getAncestorPath familyStore ''X'' ''P'' = Some [''X'', ''P''] \<and>
   getDescendantPath familyStore ''P'' ''Y'' = Some [''P'', ''N'', ''Y''] \<and>
   bestAncestor familyStore ''Y'' ''X'' = Some ''Q'' \<and>
   getAncestorPath familyStore ''Y'' ''Q'' = Some [''Y'', ''Q''] \<and>
   getDescendantPath familyStore ''Q'' ''X'' = Some [''Q'', ''M'', ''X''] \<and>
   (int (length [''X'', ''P'']) - 1, int (length [''P'', ''N'', ''Y'']) - 1) \<noteq>
   (int (length [''Q'', ''M'', ''X'']) - 1, int (length [''Y'', ''Q'']) - 1)"
proof -
  have d: "distinct (map id' family)"
    by (simp add: family_def newPerson_def)
  have b1: "bestAncestor familyStore ''X'' ''Y'' = Some ''P''"
    by code_simp
  have p1: "getAncestorPath familyStore ''X'' ''P'' = Some [''X'', ''P'']"
    by code_simp
  have p2: "getDescendantPath familyStore ''P'' ''Y'' = Some [''P'', ''N'', ''Y'']"
    by code_simp
  have b2: "bestAncestor familyStore ''Y'' ''X'' = Some ''Q''"
    by code_simp
  have p3: "getAncestorPath familyStore ''Y'' ''Q'' = Some [''Y'', ''Q'']"
    by code_simp
  have p4: "getDescendantPath familyStore ''Q'' ''X'' = Some [''Q'', ''M'', ''X'']"
    by code_simp
  from d b1 p1 p2 b2 p3 p4 show ?thesis by simp
qed

section \<open>The family set on a heap\<close>

text \<open>
  Objects and arrays have an identity.  The heap is the list of the cells allocated so far,
  an address is an index into it, and an object literal and every array method that
  returns an array append one cell.  A person object holds the address of its
  \<^verbatim>\<open>pids\<close> array; a node is a person object to which the three display fields have
  been added; the array a call returns holds the addresses of its nodes.
\<close>

type_synonym addr = nat

datatype cell =
    PersonCell "addr person_of"
  | NodeCell "addr node_of"
  | ArrayCell "string list"
  | NodesCell "addr list"

type_synonym heap = "cell list"

text \<open>
  The two maps of the store take an id to the address of the person object or of the
  array of children.  \<^verbatim>\<open>getFamilySet\<close> calls only \<^verbatim>\<open>has\<close> and \<^verbatim>\<open>get\<close> on them.
\<close>

record store_h =
  peopleMap_h :: "(string \<times> addr) list"
  childrenMap_h :: "(string \<times> addr) list"
  genderMap_h :: gender_map

definition alloc :: "cell \<Rightarrow> heap \<Rightarrow> heap \<times> addr" where
  "alloc c h = (h @ [c], length h)"

text \<open>
  Reading a cell as an object of one kind; \<open>None\<close> when the address holds something
  else, where the program would stop with a type error.
\<close>

definition getPerson :: "heap \<Rightarrow> addr \<Rightarrow> addr person_of option" where
  "getPerson h a =
     (if a < length h then (case h ! a of PersonCell p \<Rightarrow> Some p | _ \<Rightarrow> None) else None)"

definition getArray :: "heap \<Rightarrow> addr \<Rightarrow> string list option" where
  "getArray h a =
     (if a < length h then (case h ! a of ArrayCell xs \<Rightarrow> Some xs | _ \<Rightarrow> None) else None)"

definition getNode :: "heap \<Rightarrow> addr \<Rightarrow> addr node_of option" where
  "getNode h a =
     (if a < length h then (case h ! a of NodeCell n \<Rightarrow> Some n | _ \<Rightarrow> None) else None)"

definition getNodes :: "heap \<Rightarrow> addr \<Rightarrow> addr list option" where
  "getNodes h a =
     (if a < length h then (case h ! a of NodesCell ns \<Rightarrow> Some ns | _ \<Rightarrow> None) else None)"

text \<open>The same fields with another value for \<^verbatim>\<open>pids\<close>.\<close>

definition withPids :: "'a person_of \<Rightarrow> 'b \<Rightarrow> 'b person_of" where
  "withPids p x =
     \<lparr>id' = id' p, name = name p, fid = fid p, mid = mid p, pids = x,
      Birth = Birth p, Death = Death p, Address = Address p, email = email p,
      phone = phone p, note' = note' p, image_url = image_url p\<rparr>"

definition nodeWithPids :: "'a node_of \<Rightarrow> 'b \<Rightarrow> 'b node_of" where
  "nodeWithPids n x =
     \<lparr>id' = id' n, name = name n, fid = fid n, mid = mid n, pids = x,
      Birth = Birth n, Death = Death n, Address = Address n, email = email n,
      phone = phone n, note' = note' n, image_url = image_url n,
      gender_icon_svg = gender_icon_svg n, initials = initials n, label = label n\<rparr>"

text \<open>\<^verbatim>\<open>forEach\<close> with a callback that may fail.\<close>

fun foldl_opt :: "('s \<Rightarrow> 'a \<Rightarrow> 's option) \<Rightarrow> 's \<Rightarrow> 'a list \<Rightarrow> 's option" where
  "foldl_opt f s [] = Some s"
| "foldl_opt f s (x # xs) = (case f s x of None \<Rightarrow> None | Some s1 \<Rightarrow> foldl_opt f s1 xs)"

text \<open>
  \<^verbatim>\<open>addNode\<close>: the spread \<^verbatim>\<open>{ ...peopleMap.get(id) }\<close> allocates a new object with the
  fields of the person, so the copy holds the address of the same \<^verbatim>\<open>pids\<close> array.
\<close>

definition addNode_h ::
  "store_h \<Rightarrow> heap \<times> (string \<times> addr) list \<Rightarrow> string \<Rightarrow> (heap \<times> (string \<times> addr) list) option" where
  "addNode_h sh s i =
     (case s of (h, familySet) \<Rightarrow>
        (case map_of (peopleMap_h sh) i of
           Some a \<Rightarrow>
             if \<not> map_has familySet i then
               (case getPerson h a of
                  Some p \<Rightarrow> (let (h1, c) = alloc (PersonCell p) h in Some (h1, map_set i c familySet))
                | None \<Rightarrow> None)
             else Some (h, familySet)
         | None \<Rightarrow> Some (h, familySet)))"

text \<open>
  The first half of \<^verbatim>\<open>getFamilySet\<close>; \<open>centerNode\<close> is the address the map gives for
  \<open>centerId\<close>, and its fields are read from the heap where the program reads them.
\<close>

definition collectFamily_h ::
  "store_h \<Rightarrow> heap \<Rightarrow> string \<Rightarrow> addr \<Rightarrow> (heap \<times> (string \<times> addr) list) option" where
  "collectFamily_h sh h centerId centerNode =
     do {
       s0 \<leftarrow> addNode_h sh (h, []) centerId;
       c1 \<leftarrow> getPerson (fst s0) centerNode;
       s1 \<leftarrow> (case truthy (fid c1) of Some f \<Rightarrow> addNode_h sh s0 f | None \<Rightarrow> Some s0);
       c2 \<leftarrow> getPerson (fst s1) centerNode;
       s2 \<leftarrow> (case truthy (mid c2) of Some m \<Rightarrow> addNode_h sh s1 m | None \<Rightarrow> Some s1);
       c3 \<leftarrow> getPerson (fst s2) centerNode;
       partners \<leftarrow> getArray (fst s2) (pids c3);
       s3 \<leftarrow> foldl_opt (addNode_h sh) s2 partners;
       (case map_of (childrenMap_h sh) centerId of
          Some ca \<Rightarrow> do {
            children \<leftarrow> getArray (fst s3) ca;
            foldl_opt (addNode_h sh) s3 children
          }
        | None \<Rightarrow> Some s3)
     }"

text \<open>
  The callback of \<^verbatim>\<open>nodes.map\<close> on the copy at address \<open>a\<close>: \<^verbatim>\<open>filter\<close> allocates
  a new array, and the assignments to \<^verbatim>\<open>node.pids\<close>, \<^verbatim>\<open>node.fid\<close>, \<^verbatim>\<open>node.mid\<close> and
  to the display fields overwrite the cell of the copy.
\<close>

definition sanitizeNode_h :: "store_h \<Rightarrow> string set \<Rightarrow> heap \<Rightarrow> addr \<Rightarrow> heap option" where
  "sanitizeNode_h sh nodeIds h a =
     do {
       n \<leftarrow> getPerson h a;
       old \<leftarrow> getArray h (pids n);
       let (h1, pids1) = alloc (ArrayCell (filter (\<lambda>pid. pid \<in> nodeIds) old)) h;
           fid1 = (case truthy (fid n) of
                     Some f \<Rightarrow> if f \<notin> nodeIds then None else fid n
                   | None \<Rightarrow> fid n);
           mid1 = (case truthy (mid n) of
                     Some m \<Rightarrow> if m \<notin> nodeIds then None else mid n
                   | None \<Rightarrow> mid n);
           (icon, ini, lab) = displayFields (genderMap_h sh (id' n)) (name n) (image_url n)
       in Some (h1[a := NodeCell
                  \<lparr>id' = id' n, name = name n, fid = fid1, mid = mid1, pids = pids1,
                   Birth = Birth n, Death = Death n, Address = Address n, email = email n,
                   phone = phone n, note' = note' n, image_url = image_url n,
                   gender_icon_svg = icon, initials = ini, label = lab\<rparr>])
     }"

text \<open>\<^verbatim>\<open>nodes.map(n => n.id)\<close>.\<close>

fun those_ids :: "heap \<Rightarrow> addr list \<Rightarrow> string list option" where
  "those_ids h [] = Some []"
| "those_ids h (a # as) =
     (case getPerson h a of
        None \<Rightarrow> None
      | Some n \<Rightarrow> (case those_ids h as of None \<Rightarrow> None | Some ids \<Rightarrow> Some (id' n # ids)))"

text \<open>
  \<^verbatim>\<open>getFamilySet\<close> on the heap: the heap after the call and the address of the array it
  returns.  The local map, set and array of nodes never leave the call and stay values.
\<close>

definition getFamilySet_h :: "store_h \<Rightarrow> heap \<Rightarrow> string \<Rightarrow> (heap \<times> addr) option" where
  "getFamilySet_h sh h centerId =
     (case map_of (peopleMap_h sh) centerId of
        None \<Rightarrow> Some (alloc (NodesCell []) h)
      | Some centerNode \<Rightarrow>
          do {
            (h1, familySet) \<leftarrow> collectFamily_h sh h centerId centerNode;
            let nodes = map snd familySet;
            ids \<leftarrow> those_ids h1 nodes;
            let nodeIds = set ids;
            h2 \<leftarrow> foldl_opt (sanitizeNode_h sh nodeIds) h1 nodes;
            Some (alloc (NodesCell nodes) h2)
          })"

text \<open>
  What an address denotes, with the \<^verbatim>\<open>pids\<close> array read out: the records of the
  first model of \<^verbatim>\<open>getFamilySet\<close>.
\<close>

definition personView :: "heap \<Rightarrow> addr \<Rightarrow> person option" where
  "personView h a =
     (case getPerson h a of
        None \<Rightarrow> None
      | Some p \<Rightarrow> (case getArray h (pids p) of None \<Rightarrow> None | Some xs \<Rightarrow> Some (withPids p xs)))"

definition nodeView :: "heap \<Rightarrow> addr \<Rightarrow> node option" where
  "nodeView h a =
     (case getNode h a of
        None \<Rightarrow> None
      | Some n \<Rightarrow> (case getArray h (pids n) of None \<Rightarrow> None | Some xs \<Rightarrow> Some (nodeWithPids n xs)))"

fun all_some :: "'a option list \<Rightarrow> 'a list option" where
  "all_some [] = Some []"
| "all_some (x # xs) =
     (case x of
        None \<Rightarrow> None
      | Some v \<Rightarrow> (case all_some xs of None \<Rightarrow> None | Some vs \<Rightarrow> Some (v # vs)))"

definition resultView :: "heap \<Rightarrow> addr \<Rightarrow> node list option" where
  "resultView h r =
     (case getNodes h r of
        None \<Rightarrow> None
      | Some ns \<Rightarrow> all_some (map (nodeView h) ns))"

text \<open>
  A heap and its two maps represent a store when the maps have the same keys in the same
  order and each address denotes what the store has under the same key.  Nothing is
  asked about sharing: two persons may hold the same array.
\<close>

definition represents :: "store_h \<Rightarrow> heap \<Rightarrow> store \<Rightarrow> bool" where
  "represents sh h st \<longleftrightarrow>
     list_all2 (\<lambda>r v. fst r = fst v \<and> personView h (snd r) = Some (snd v))
       (peopleMap_h sh) (peopleMap st) \<and>
     list_all2 (\<lambda>r v. fst r = fst v \<and> getArray h (snd r) = Some (snd v))
       (childrenMap_h sh) (childrenMap st) \<and>
     genderMap_h sh = genderMap st"

text \<open>
  A store laid out in an empty heap as the adapter and \<^verbatim>\<open>buildLookups\<close> allocate it: one
  array and one object for each person, then one array for each parent.
\<close>

fun layoutPeople :: "people_map \<Rightarrow> heap \<Rightarrow> heap \<times> (string \<times> addr) list" where
  "layoutPeople [] h = (h, [])"
| "layoutPeople ((i, p) # ps) h =
     (let (h1, a) = alloc (ArrayCell (pids p)) h;
          (h2, b) = alloc (PersonCell (withPids p a)) h1;
          (h3, m) = layoutPeople ps h2
      in (h3, (i, b) # m))"

fun layoutChildren :: "children_map \<Rightarrow> heap \<Rightarrow> heap \<times> (string \<times> addr) list" where
  "layoutChildren [] h = (h, [])"
| "layoutChildren ((i, cs) # rest) h =
     (let (h1, a) = alloc (ArrayCell cs) h;
          (h2, m) = layoutChildren rest h1
      in (h2, (i, a) # m))"

definition layout :: "store \<Rightarrow> store_h \<times> heap" where
  "layout st =
     (let (h1, pm) = layoutPeople (peopleMap st) [];
          (h2, cm) = layoutChildren (childrenMap st) h1
      in (\<lparr>peopleMap_h = pm, childrenMap_h = cm, genderMap_h = genderMap st\<rparr>, h2))"

definition familyLayout :: "store_h \<times> heap" where
  "familyLayout = layout familyStore"

subsection \<open>Heaps that only grow\<close>

text \<open>\<open>h\<close> extends \<open>h0\<close> when every cell of \<open>h0\<close> is still there, unchanged.\<close>

definition extends :: "heap \<Rightarrow> heap \<Rightarrow> bool" where
  "extends h0 h \<longleftrightarrow> length h0 \<le> length h \<and> take (length h0) h = h0"

lemma extends_nth: "extends h0 h \<Longrightarrow> a < length h0 \<Longrightarrow> h ! a = h0 ! a"
  by (metis extends_def nth_take)

lemma extendsI:
  assumes "length h0 \<le> length h" and "\<And>b. b < length h0 \<Longrightarrow> h ! b = h0 ! b"
  shows "extends h0 h"
  unfolding extends_def using assms by (auto intro: nth_equalityI)

lemma extends_refl: "extends h h"
  by (simp add: extends_def)

lemma extends_length: "extends h0 h \<Longrightarrow> length h0 \<le> length h"
  by (simp add: extends_def)

lemma extends_trans:
  assumes "extends h0 h1" and "extends h1 h2"
  shows "extends h0 h2"
proof (rule extendsI)
  show "length h0 \<le> length h2"
    using extends_length[OF assms(1)] extends_length[OF assms(2)] by simp
next
  fix b assume b: "b < length h0"
  with extends_length[OF assms(1)] have "b < length h1" by simp
  from extends_nth[OF assms(2) this] extends_nth[OF assms(1) b]
  show "h2 ! b = h0 ! b" by simp
qed

lemma extends_append: "extends h (h @ xs)"
  by (simp add: extends_def)

lemma getPerson_cell: "getPerson h a = Some p \<longleftrightarrow> a < length h \<and> h ! a = PersonCell p"
  by (auto simp: getPerson_def split: cell.splits)

lemma getArray_cell: "getArray h a = Some xs \<longleftrightarrow> a < length h \<and> h ! a = ArrayCell xs"
  by (auto simp: getArray_def split: cell.splits)

lemma getNode_cell: "getNode h a = Some n \<longleftrightarrow> a < length h \<and> h ! a = NodeCell n"
  by (auto simp: getNode_def split: cell.splits)

lemma getNodes_cell: "getNodes h a = Some ns \<longleftrightarrow> a < length h \<and> h ! a = NodesCell ns"
  by (auto simp: getNodes_def split: cell.splits)

lemma getPerson_ext: "extends h0 h \<Longrightarrow> getPerson h0 a = Some p \<Longrightarrow> getPerson h a = Some p"
  using extends_length[of h0 h] by (auto simp: getPerson_cell extends_nth)

lemma getArray_ext: "extends h0 h \<Longrightarrow> getArray h0 a = Some p \<Longrightarrow> getArray h a = Some p"
  using extends_length[of h0 h] by (auto simp: getArray_cell extends_nth)

lemma getNode_ext: "extends h0 h \<Longrightarrow> getNode h0 a = Some p \<Longrightarrow> getNode h a = Some p"
  using extends_length[of h0 h] by (auto simp: getNode_cell extends_nth)

lemma getNodes_ext: "extends h0 h \<Longrightarrow> getNodes h0 a = Some p \<Longrightarrow> getNodes h a = Some p"
  using extends_length[of h0 h] by (auto simp: getNodes_cell extends_nth)

lemma personView_iff:
  "personView h a = Some v \<longleftrightarrow>
     (\<exists>n xs. getPerson h a = Some n \<and> getArray h (pids n) = Some xs \<and> v = withPids n xs)"
  by (auto simp: personView_def split: option.splits)

lemma nodeView_iff:
  "nodeView h a = Some v \<longleftrightarrow>
     (\<exists>n xs. getNode h a = Some n \<and> getArray h (pids n) = Some xs \<and> v = nodeWithPids n xs)"
  by (auto simp: nodeView_def split: option.splits)

lemma personView_ext:
  assumes "extends h0 h" and "personView h0 a = Some p"
  shows "personView h a = Some p"
proof -
  from assms(2) obtain n xs where n: "getPerson h0 a = Some n" "getArray h0 (pids n) = Some xs"
    "p = withPids n xs"
    unfolding personView_iff by blast
  from getPerson_ext[OF assms(1) n(1)] getArray_ext[OF assms(1) n(2)] n(3)
  show ?thesis unfolding personView_iff by blast
qed

lemma nodeView_ext:
  assumes "extends h0 h" and "nodeView h0 a = Some p"
  shows "nodeView h a = Some p"
proof -
  from assms(2) obtain n xs where n: "getNode h0 a = Some n" "getArray h0 (pids n) = Some xs"
    "p = nodeWithPids n xs"
    unfolding nodeView_iff by blast
  from getNode_ext[OF assms(1) n(1)] getArray_ext[OF assms(1) n(2)] n(3)
  show ?thesis unfolding nodeView_iff by blast
qed

lemma personView_bound: "personView h a = Some p \<Longrightarrow> a < length h"
  unfolding personView_iff getPerson_cell by blast

lemma nodeView_bound: "nodeView h a = Some p \<Longrightarrow> a < length h"
  unfolding nodeView_iff getNode_cell by blast

lemma represents_ext:
  assumes "represents sh h0 st" and e: "extends h0 h"
  shows "represents sh h st"
proof -
  have 1: "list_all2 (\<lambda>r v. fst r = fst v \<and> personView h (snd r) = Some (snd v))
       (peopleMap_h sh) (peopleMap st)"
    using assms(1) unfolding represents_def
    by (elim conjE list_all2_mono) (simp add: personView_ext[OF e])
  have 2: "list_all2 (\<lambda>r v. fst r = fst v \<and> getArray h (snd r) = Some (snd v))
       (childrenMap_h sh) (childrenMap st)"
    using assms(1) unfolding represents_def
    by (elim conjE list_all2_mono) (simp add: getArray_ext[OF e])
  from 1 2 assms(1) show ?thesis by (simp add: represents_def)
qed

lemma rel_map_of:
  assumes "list_all2 (\<lambda>r v. fst r = fst v \<and> P (snd r) (snd v)) xs ys"
  shows "(map_of xs k = None \<longleftrightarrow> map_of ys k = None) \<and>
         (\<forall>a. map_of xs k = Some a \<longrightarrow> (\<exists>v. map_of ys k = Some v \<and> P a v))"
  using assms by (induction rule: list_all2_induct) auto

lemma update_absent: "map_of xs k = None \<Longrightarrow> AList.update k v xs = xs @ [(k, v)]"
  by (induction xs) (auto split: if_splits)

subsection \<open>Collecting the family\<close>

text \<open>
  While the family is collected, the heap extends the heap of the call, still represents
  the store, and the family set holds, under the same keys, distinct addresses allocated
  since the call that denote the copies of the first model.
\<close>

definition famrel :: "heap \<Rightarrow> heap \<Rightarrow> (string \<times> addr) list \<Rightarrow> people_map \<Rightarrow> bool" where
  "famrel h0 h fh fs \<longleftrightarrow>
     list_all2 (\<lambda>r v. fst r = fst v \<and> (personView h (snd r) = Some (snd v) \<and> length h0 \<le> snd r)) fh fs \<and>
     distinct (map snd fh)"

definition collecting ::
  "store_h \<Rightarrow> store \<Rightarrow> heap \<Rightarrow> heap \<times> (string \<times> addr) list \<Rightarrow> people_map \<Rightarrow> bool" where
  "collecting sh st h0 s fs \<longleftrightarrow>
     extends h0 (fst s) \<and> represents sh (fst s) st \<and> famrel h0 (fst s) (snd s) fs"

lemma famrel_bound: "famrel h0 h fh fs \<Longrightarrow> r \<in> set fh \<Longrightarrow> snd r < length h"
  unfolding famrel_def
  by (auto simp: list_all2_conv_all_nth in_set_conv_nth dest: personView_bound)

lemma famrel_ext:
  assumes "famrel h0 h fh fs" and e: "extends h h1"
  shows "famrel h0 h1 fh fs"
proof -
  have "list_all2 (\<lambda>r v. fst r = fst v \<and> (personView h1 (snd r) = Some (snd v) \<and> length h0 \<le> snd r)) fh fs"
    using assms(1) unfolding famrel_def
    by (elim conjE list_all2_mono) (simp add: personView_ext[OF e])
  with assms(1) show ?thesis by (simp add: famrel_def)
qed

lemma famrel_snoc:
  assumes f: "famrel h0 h fh fs" and pv: "personView h1 (length h) = Some p"
    and e: "extends h h1" and l: "length h0 \<le> length h"
  shows "famrel h0 h1 (fh @ [(i, length h)]) (fs @ [(i, p)])"
proof -
  have 1: "famrel h0 h1 fh fs" by (rule famrel_ext[OF f e])
  have 2: "length h \<notin> snd ` set fh"
  proof
    assume "length h \<in> snd ` set fh"
    then obtain r where "r \<in> set fh" "snd r = length h" by auto
    with famrel_bound[OF f, of r] show False by simp
  qed
  show ?thesis
    using 1 2 pv l unfolding famrel_def
    by (auto simp: list_all2_appendI)
qed

lemma addNode_h_step:
  assumes c: "collecting sh st h0 s fs"
  shows "\<exists>s1. addNode_h sh s i = Some s1 \<and> collecting sh st h0 s1 (addNode (peopleMap st) fs i)"
proof -
  obtain h fh where s: "s = (h, fh)" by (cases s)
  from c s have e: "extends h0 h" and r: "represents sh h st" and f: "famrel h0 h fh fs"
    by (simp_all add: collecting_def)
  from r have pm: "list_all2 (\<lambda>r v. fst r = fst v \<and> personView h (snd r) = Some (snd v))
       (peopleMap_h sh) (peopleMap st)"
    by (simp add: represents_def)
  from f have fm: "list_all2 (\<lambda>r v. fst r = fst v \<and> (personView h (snd r) = Some (snd v) \<and> length h0 \<le> snd r)) fh fs"
    by (simp add: famrel_def)
  show ?thesis
  proof (cases "map_of (peopleMap_h sh) i")
    case None
    with rel_map_of[OF pm, of i] have "map_of (peopleMap st) i = None" by simp
    with None c s show ?thesis by (simp add: addNode_h_def addNode_def)
  next
    case (Some a)
    with rel_map_of[OF pm, of i] obtain p where
      p: "map_of (peopleMap st) i = Some p" "personView h a = Some p"
      by auto
    show ?thesis
    proof (cases "map_of fh i")
      case has: (Some b)
      with rel_map_of[OF fm, of i] have "map_of fs i \<noteq> None" by auto
      with has Some p c s show ?thesis
        by (simp add: addNode_h_def addNode_def map_has_def)
    next
      case None
      with rel_map_of[OF fm, of i] have nf: "map_of fs i = None" by simp
      from p(2) obtain n arr where n: "getPerson h a = Some n" "getArray h (pids n) = Some arr"
        "p = withPids n arr"
        unfolding personView_iff by blast
      let ?h1 = "h @ [PersonCell n]"
      have e1: "extends h ?h1" by (rule extends_append)
      have gp: "getPerson ?h1 (length h) = Some n" by (simp add: getPerson_def)
      have "getArray ?h1 (pids n) = Some arr" by (rule getArray_ext[OF e1 n(2)])
      with gp have pv: "personView ?h1 (length h) = Some p"
        by (simp add: personView_def n(3))
      have l: "length h0 \<le> length h" using e by (simp add: extends_def)
      have fr: "famrel h0 ?h1 (fh @ [(i, length h)]) (fs @ [(i, p)])"
        by (rule famrel_snoc[OF f pv e1 l])
      have res: "addNode_h sh s i = Some (?h1, fh @ [(i, length h)])"
        using Some None n(1) s
        by (simp add: addNode_h_def map_has_def alloc_def map_set_def update_absent)
      have pure: "addNode (peopleMap st) fs i = fs @ [(i, p)]"
        using p(1) nf by (simp add: addNode_def map_has_def map_set_def update_absent)
      have "collecting sh st h0 (?h1, fh @ [(i, length h)]) (fs @ [(i, p)])"
        unfolding collecting_def
        using extends_trans[OF e e1] represents_ext[OF r e1] fr by simp
      with res pure show ?thesis by simp
    qed
  qed
qed

lemma addNode_h_fold:
  assumes "collecting sh st h0 s fs"
  shows "\<exists>s1. foldl_opt (addNode_h sh) s xs = Some s1 \<and>
              collecting sh st h0 s1 (foldl (addNode (peopleMap st)) fs xs)"
  using assms
proof (induction xs arbitrary: s fs)
  case Nil
  then show ?case by simp
next
  case (Cons x xs)
  from addNode_h_step[OF Cons.prems, of x] obtain s1 where
    s1: "addNode_h sh s x = Some s1" "collecting sh st h0 s1 (addNode (peopleMap st) fs x)"
    by blast
  from Cons.IH[OF s1(2)] s1(1) show ?case by simp
qed

lemma addNode_h_opt:
  assumes "collecting sh st h0 s fs"
  shows "\<exists>s1. (case x of Some f \<Rightarrow> addNode_h sh s f | None \<Rightarrow> Some s) = Some s1 \<and>
              collecting sh st h0 s1 (case x of Some f \<Rightarrow> addNode (peopleMap st) fs f | None \<Rightarrow> fs)"
proof (cases x)
  case None
  with assms show ?thesis by simp
next
  case (Some f)
  with addNode_h_step[OF assms, of f] show ?thesis by simp
qed

lemma center_read:
  assumes c: "collecting sh st h0 s fs"
    and a: "map_of (peopleMap_h sh) cid = Some a"
    and v: "map_of (peopleMap st) cid = Some v"
  shows "\<exists>n. getPerson (fst s) a = Some n \<and> fid n = fid v \<and> mid n = mid v \<and>
             getArray (fst s) (pids n) = Some (pids v)"
proof -
  from c have "list_all2 (\<lambda>r v. fst r = fst v \<and> personView (fst s) (snd r) = Some (snd v))
       (peopleMap_h sh) (peopleMap st)"
    by (simp add: collecting_def represents_def)
  from rel_map_of[OF this, of cid] a v have "personView (fst s) a = Some v" by auto
  then obtain n xs where "getPerson (fst s) a = Some n" "getArray (fst s) (pids n) = Some xs"
    "v = withPids n xs"
    unfolding personView_iff by blast
  then show ?thesis by (simp add: withPids_def)
qed

lemma children_read:
  assumes c: "collecting sh st h0 s fs"
  shows "(map_of (childrenMap_h sh) cid = None \<longleftrightarrow> map_of (childrenMap st) cid = None) \<and>
         (\<forall>ca. map_of (childrenMap_h sh) cid = Some ca \<longrightarrow>
            (\<exists>cs. map_of (childrenMap st) cid = Some cs \<and> getArray (fst s) ca = Some cs))"
proof -
  from c have "list_all2 (\<lambda>r v. fst r = fst v \<and> getArray (fst s) (snd r) = Some (snd v))
       (childrenMap_h sh) (childrenMap st)"
    by (simp add: collecting_def represents_def)
  from rel_map_of[OF this, of cid] show ?thesis .
qed

lemma collectFamily_h_refines:
  assumes r: "represents sh h st"
    and a: "map_of (peopleMap_h sh) cid = Some a"
    and v: "map_of (peopleMap st) cid = Some v"
  shows "\<exists>s. collectFamily_h sh h cid a = Some s \<and> collecting sh st h s (collectFamily st cid v)"
proof -
  let ?pm = "peopleMap st"
  have c: "collecting sh st h (h, []) []"
    using r by (simp add: collecting_def extends_refl famrel_def)
  define fs0 where "fs0 = addNode ?pm [] cid"
  define fs1 where "fs1 = (case truthy (fid v) of Some f \<Rightarrow> addNode ?pm fs0 f | None \<Rightarrow> fs0)"
  define fs2 where "fs2 = (case truthy (mid v) of Some m \<Rightarrow> addNode ?pm fs1 m | None \<Rightarrow> fs1)"
  define fs3 where "fs3 = foldl (addNode ?pm) fs2 (pids v)"
  define fs4 where "fs4 = (case map_of (childrenMap st) cid of
                   Some children \<Rightarrow> foldl (addNode ?pm) fs3 children
                 | None \<Rightarrow> fs3)"
  have pure: "collectFamily st cid v = fs4"
    unfolding collectFamily_def fs0_def fs1_def fs2_def fs3_def fs4_def Let_def ..
  from addNode_h_step[OF c, of cid] obtain s0 where
    s0: "addNode_h sh (h, []) cid = Some s0" "collecting sh st h s0 fs0"
    unfolding fs0_def by blast
  from center_read[OF s0(2) a v] obtain c1 where
    c1: "getPerson (fst s0) a = Some c1" "fid c1 = fid v"
    by blast
  from addNode_h_opt[OF s0(2), of "truthy (fid v)"] obtain s1 where
    s1: "(case truthy (fid v) of Some f \<Rightarrow> addNode_h sh s0 f | None \<Rightarrow> Some s0) = Some s1"
      "collecting sh st h s1 fs1"
    unfolding fs1_def by blast
  from center_read[OF s1(2) a v] obtain c2 where
    c2: "getPerson (fst s1) a = Some c2" "mid c2 = mid v"
    by blast
  from addNode_h_opt[OF s1(2), of "truthy (mid v)"] obtain s2 where
    s2: "(case truthy (mid v) of Some m \<Rightarrow> addNode_h sh s1 m | None \<Rightarrow> Some s1) = Some s2"
      "collecting sh st h s2 fs2"
    unfolding fs2_def by blast
  from center_read[OF s2(2) a v] obtain c3 where
    c3: "getPerson (fst s2) a = Some c3" "getArray (fst s2) (pids c3) = Some (pids v)"
    by blast
  from addNode_h_fold[OF s2(2), of "pids v"] obtain s3 where
    s3: "foldl_opt (addNode_h sh) s2 (pids v) = Some s3" "collecting sh st h s3 fs3"
    unfolding fs3_def by blast
  have "\<exists>s4. (case map_of (childrenMap_h sh) cid of
          Some ca \<Rightarrow> do {
            children \<leftarrow> getArray (fst s3) ca;
            foldl_opt (addNode_h sh) s3 children
          }
        | None \<Rightarrow> Some s3) = Some s4 \<and> collecting sh st h s4 fs4"
  proof (cases "map_of (childrenMap_h sh) cid")
    case None
    with children_read[OF s3(2), of cid] have "map_of (childrenMap st) cid = None" by simp
    with None s3(2) show ?thesis by (simp add: fs4_def)
  next
    case (Some ca)
    with children_read[OF s3(2), of cid] obtain cs where
      cs: "map_of (childrenMap st) cid = Some cs" "getArray (fst s3) ca = Some cs"
      by auto
    from addNode_h_fold[OF s3(2), of cs] obtain s4 where
      "foldl_opt (addNode_h sh) s3 cs = Some s4" "collecting sh st h s4 (foldl (addNode ?pm) fs3 cs)"
      by blast
    with Some cs show ?thesis by (simp add: fs4_def)
  qed
  then obtain s4 where s4: "(case map_of (childrenMap_h sh) cid of
          Some ca \<Rightarrow> do {
            children \<leftarrow> getArray (fst s3) ca;
            foldl_opt (addNode_h sh) s3 children
          }
        | None \<Rightarrow> Some s3) = Some s4" "collecting sh st h s4 fs4"
    by blast
  have "collectFamily_h sh h cid a = Some s4"
    unfolding collectFamily_h_def
    by (simp add: s0(1) c1 s1(1) c2 s2(1) c3 s3(1) s4(1))
  with s4(2) pure show ?thesis by simp
qed

subsection \<open>Sanitizing the copies\<close>

lemma those_ids_view:
  assumes "list_all2 (\<lambda>a v. personView h a = Some v) as vs"
  shows "those_ids h as = Some (map id' vs)"
  using assms
proof (induction rule: list_all2_induct)
  case Nil
  show ?case by simp
next
  case (Cons a as v vs)
  from Cons.hyps(1) obtain n xs where "getPerson h a = Some n" "v = withPids n xs"
    unfolding personView_iff by blast
  with Cons.IH show ?case by (simp add: withPids_def)
qed

lemma all_some_view:
  assumes "list_all2 (\<lambda>a v. f a = Some v) as vs"
  shows "all_some (map f as) = Some vs"
  using assms by (induction rule: list_all2_induct) simp_all

lemma sanitizeNode_h_step:
  assumes pv: "personView h a = Some v" and g: "genderMap_h sh = genderMap st"
  shows "\<exists>arr n1. sanitizeNode_h sh ids h a = Some ((h @ [ArrayCell arr])[a := NodeCell n1]) \<and>
                  pids n1 = length h \<and> nodeWithPids n1 arr = sanitizeNode st ids v"
proof -
  from pv obtain n old where n: "getPerson h a = Some n" "getArray h (pids n) = Some old"
    "v = withPids n old"
    unfolding personView_iff by blast
  obtain icon ini lab where
    df: "displayFields (genderMap st (id' n)) (name n) (image_url n) = (icon, ini, lab)"
    by (cases "displayFields (genderMap st (id' n)) (name n) (image_url n)")
  define fid1 where "fid1 = (case truthy (fid n) of
                     Some f \<Rightarrow> if f \<notin> ids then None else fid n
                   | None \<Rightarrow> fid n)"
  define mid1 where "mid1 = (case truthy (mid n) of
                     Some m \<Rightarrow> if m \<notin> ids then None else mid n
                   | None \<Rightarrow> mid n)"
  define n1 :: "addr node_of" where "n1 =
     \<lparr>id' = id' n, name = name n, fid = fid1, mid = mid1, pids = length h,
      Birth = Birth n, Death = Death n, Address = Address n, email = email n,
      phone = phone n, note' = note' n, image_url = image_url n,
      gender_icon_svg = icon, initials = ini, label = lab\<rparr>"
  let ?arr = "filter (\<lambda>pid. pid \<in> ids) old"
  have 1: "sanitizeNode_h sh ids h a = Some ((h @ [ArrayCell ?arr])[a := NodeCell n1])"
    unfolding sanitizeNode_h_def alloc_def Let_def
    by (simp add: n(1,2) g df n1_def fid1_def mid1_def)
  have 2: "pids n1 = length h" by (simp add: n1_def)
  have sel: "id' v = id' n" "name v = name n" "fid v = fid n" "mid v = mid n" "pids v = old"
    "Birth v = Birth n" "Death v = Death n" "Address v = Address n" "email v = email n"
    "phone v = phone n" "note' v = note' n" "image_url v = image_url n"
    by (simp_all add: n(3) withPids_def)
  have 3: "nodeWithPids n1 ?arr = sanitizeNode st ids v"
    unfolding sanitizeNode_def getGender_def Let_def sel df
    by (simp add: nodeWithPids_def n1_def fid1_def mid1_def)
  from 1 2 3 show ?thesis by blast
qed

lemma personView_frame:
  assumes pv: "personView h b = Some v"
    and len: "length h \<le> length h1"
    and same: "\<And>c. c < length h \<Longrightarrow> c \<noteq> a \<Longrightarrow> h1 ! c = h ! c"
    and ba: "b \<noteq> a"
    and pa: "getPerson h a = Some p"
  shows "personView h1 b = Some v"
proof -
  from pv obtain n xs where n: "getPerson h b = Some n" "getArray h (pids n) = Some xs"
    "v = withPids n xs"
    unfolding personView_iff by blast
  from n(1) have b: "b < length h" "h ! b = PersonCell n" by (simp_all add: getPerson_cell)
  from same[OF b(1) ba] b len have 1: "getPerson h1 b = Some n" by (simp add: getPerson_cell)
  from n(2) have c: "pids n < length h" "h ! pids n = ArrayCell xs" by (simp_all add: getArray_cell)
  from pa c(2) have "pids n \<noteq> a" by (auto simp: getPerson_cell)
  from same[OF c(1) this] c len have 2: "getArray h1 (pids n) = Some xs" by (simp add: getArray_cell)
  from 1 2 n(3) show ?thesis unfolding personView_iff by blast
qed

lemma sanitize_fold:
  assumes "list_all2 (\<lambda>a v. personView h a = Some v) as vs"
    and "distinct as" and g: "genderMap_h sh = genderMap st"
  shows "\<exists>h1. foldl_opt (sanitizeNode_h sh ids) h as = Some h1 \<and> length h \<le> length h1 \<and>
              (\<forall>b. b < length h \<and> b \<notin> set as \<longrightarrow> h1 ! b = h ! b) \<and>
              list_all2 (\<lambda>a v. nodeView h1 a = Some v) as (map (sanitizeNode st ids) vs)"
  using assms(1,2)
proof (induction as arbitrary: h vs)
  case Nil
  then show ?case by simp
next
  case (Cons a as)
  from Cons.prems(1) obtain v vs1 where vs: "vs = v # vs1"
    and pv: "personView h a = Some v"
    and rest: "list_all2 (\<lambda>a v. personView h a = Some v) as vs1"
    by (auto simp: list_all2_Cons1)
  from Cons.prems(2) have na: "a \<notin> set as" and d: "distinct as" by simp_all
  from sanitizeNode_h_step[OF pv g, of ids] obtain arr n1 where
    st: "sanitizeNode_h sh ids h a = Some ((h @ [ArrayCell arr])[a := NodeCell n1])"
    and pn: "pids n1 = length h"
    and nv: "nodeWithPids n1 arr = sanitizeNode st ids v"
    by blast
  let ?h1 = "(h @ [ArrayCell arr])[a := NodeCell n1]"
  have al: "a < length h" by (rule personView_bound[OF pv])
  from pv obtain p where pa: "getPerson h a = Some p" unfolding personView_iff by blast
  have len1: "length h \<le> length ?h1" by simp
  have same1: "\<And>c. c < length h \<Longrightarrow> c \<noteq> a \<Longrightarrow> ?h1 ! c = h ! c"
    by (simp add: nth_append)
  have "list_all2 (\<lambda>a v. personView ?h1 a = Some v) as vs1"
    unfolding list_all2_conv_all_nth
  proof (intro conjI allI impI)
    show "length as = length vs1" using rest by (rule list_all2_lengthD)
  next
    fix i assume i: "i < length as"
    from rest i have pvi: "personView h (as ! i) = Some (vs1 ! i)"
      by (simp add: list_all2_conv_all_nth)
    from i na have "as ! i \<noteq> a" by (metis nth_mem)
    from personView_frame[OF pvi len1 same1 this pa]
    show "personView ?h1 (as ! i) = Some (vs1 ! i)" by simp
  qed
  from Cons.IH[OF this d] obtain h2 where
    f2: "foldl_opt (sanitizeNode_h sh ids) ?h1 as = Some h2"
    and len2: "length ?h1 \<le> length h2"
    and same2: "\<forall>b. b < length ?h1 \<and> b \<notin> set as \<longrightarrow> h2 ! b = ?h1 ! b"
    and view2: "list_all2 (\<lambda>a v. nodeView h2 a = Some v) as (map (sanitizeNode st ids) vs1)"
    by blast
  have bnd: "\<And>b. b \<in> set as \<Longrightarrow> b < length h"
  proof -
    fix b assume "b \<in> set as"
    then obtain i where "i < length as" "as ! i = b" by (auto simp: in_set_conv_nth)
    with rest have "personView h b = Some (vs1 ! i)" by (auto simp: list_all2_conv_all_nth)
    then show "b < length h" by (rule personView_bound)
  qed
  have 1: "foldl_opt (sanitizeNode_h sh ids) h (a # as) = Some h2"
    by (simp add: st f2)
  have 2: "length h \<le> length h2" using len2 by simp
  have 3: "\<forall>b. b < length h \<and> b \<notin> set (a # as) \<longrightarrow> h2 ! b = h ! b"
  proof (intro allI impI)
    fix b assume b: "b < length h \<and> b \<notin> set (a # as)"
    then have "b < length ?h1 \<and> b \<notin> set as" by simp
    with same2 have "h2 ! b = ?h1 ! b" by blast
    also from b have "?h1 ! b = h ! b" by (simp add: nth_append)
    finally show "h2 ! b = h ! b" .
  qed
  have ca: "h2 ! a = NodeCell n1"
  proof -
    from al na have "a < length ?h1 \<and> a \<notin> set as" by simp
    with same2 have "h2 ! a = ?h1 ! a" by blast
    with al show ?thesis by simp
  qed
  have cl: "h2 ! length h = ArrayCell arr"
  proof -
    have "length h \<notin> set as" using bnd by blast
    then have "length h < length ?h1 \<and> length h \<notin> set as" by simp
    with same2 have "h2 ! length h = ?h1 ! length h" by blast
    with al show ?thesis by (simp add: nth_append)
  qed
  have "getNode h2 a = Some n1" using ca al 2 by (simp add: getNode_cell)
  moreover have "getArray h2 (pids n1) = Some arr" using cl len2 by (simp add: getArray_cell pn)
  ultimately have va: "nodeView h2 a = Some (sanitizeNode st ids v)"
    unfolding nodeView_iff using nv by auto
  have 4: "list_all2 (\<lambda>a v. nodeView h2 a = Some v) (a # as) (map (sanitizeNode st ids) vs)"
    using va view2 by (simp add: vs)
  from 1 2 3 4 show ?case by blast
qed

subsection \<open>One call, then two\<close>

text \<open>
  One call returns, changes no cell that was there before, and the array it returns holds
  new addresses that denote the nodes \<^const>\<open>getFamilySet\<close> lists.
\<close>

lemma getFamilySet_h_refines:
  assumes r: "represents sh h st"
  shows "\<exists>h1 res ns. getFamilySet_h sh h cid = Some (h1, res) \<and> extends h h1 \<and>
           length h \<le> res \<and> getNodes h1 res = Some ns \<and>
           (\<forall>a \<in> set ns. length h \<le> a) \<and>
           list_all2 (\<lambda>a v. nodeView h1 a = Some v) ns (getFamilySet st cid)"
proof -
  from r have pm: "list_all2 (\<lambda>r v. fst r = fst v \<and> personView h (snd r) = Some (snd v))
       (peopleMap_h sh) (peopleMap st)"
    and g: "genderMap_h sh = genderMap st"
    by (simp_all add: represents_def)
  show ?thesis
  proof (cases "map_of (peopleMap_h sh) cid")
    case None
    with rel_map_of[OF pm, of cid] have "map_of (peopleMap st) cid = None" by simp
    then have p: "getFamilySet st cid = []" by (simp add: getFamilySet_def)
    have 1: "getFamilySet_h sh h cid = Some (h @ [NodesCell []], length h)"
      using None by (simp add: getFamilySet_h_def alloc_def)
    have 2: "getNodes (h @ [NodesCell []]) (length h) = Some []"
      by (simp add: getNodes_cell)
    from 1 2 p extends_append[of h "[NodesCell []]"] show ?thesis by simp
  next
    case (Some a)
    with rel_map_of[OF pm, of cid] obtain v where
      v: "map_of (peopleMap st) cid = Some v" by auto
    define fs where "fs = collectFamily st cid v"
    define vs where "vs = map snd fs"
    define ids where "ids = set (map id' vs)"
    have p: "getFamilySet st cid = map (sanitizeNode st ids) vs"
      unfolding getFamilySet_def Let_def ids_def vs_def fs_def by (simp add: v)
    from collectFamily_h_refines[OF r Some v] obtain h1 fh where
      cf: "collectFamily_h sh h cid a = Some (h1, fh)"
      and c: "collecting sh st h (h1, fh) fs"
      unfolding fs_def by (metis surj_pair)
    from c have e1: "extends h h1" and fr: "famrel h h1 fh fs"
      by (simp_all add: collecting_def)
    define nodes where "nodes = map snd fh"
    from fr have views: "list_all2 (\<lambda>a v. personView h1 a = Some v) nodes vs"
      unfolding famrel_def nodes_def vs_def list_all2_map1 list_all2_map2
      by (elim conjE list_all2_mono) simp
    have lower: "\<forall>a \<in> set nodes. length h \<le> a"
    proof
      fix b assume "b \<in> set nodes"
      then obtain i where i: "i < length fh" "snd (fh ! i) = b"
        unfolding nodes_def by (auto simp: in_set_conv_nth)
      from fr i(1) have "length h \<le> snd (fh ! i)"
        unfolding famrel_def by (auto simp: list_all2_conv_all_nth)
      with i(2) show "length h \<le> b" by simp
    qed
    from fr have dist: "distinct nodes" by (simp add: famrel_def nodes_def)
    have ti: "those_ids h1 nodes = Some (map id' vs)" by (rule those_ids_view[OF views])
    from sanitize_fold[OF views dist g, of ids] obtain h2 where
      f: "foldl_opt (sanitizeNode_h sh ids) h1 nodes = Some h2"
      and len: "length h1 \<le> length h2"
      and same: "\<forall>b. b < length h1 \<and> b \<notin> set nodes \<longrightarrow> h2 ! b = h1 ! b"
      and nv: "list_all2 (\<lambda>a v. nodeView h2 a = Some v) nodes (map (sanitizeNode st ids) vs)"
      by blast
    have ids_img: "id' ` set vs = ids" by (simp add: ids_def)
    let ?h3 = "h2 @ [NodesCell nodes]"
    have res: "getFamilySet_h sh h cid = Some (?h3, length h2)"
      unfolding getFamilySet_h_def
      using ids_img by (simp add: Some cf nodes_def[symmetric] ti f alloc_def)
    have e2: "extends h h2"
    proof (rule extendsI)
      show "length h \<le> length h2" using extends_length[OF e1] len by simp
    next
      fix b assume b: "b < length h"
      with lower have "b \<notin> set nodes" by auto
      moreover from b extends_length[OF e1] have "b < length h1" by simp
      ultimately have "h2 ! b = h1 ! b" using same by blast
      with extends_nth[OF e1 b] show "h2 ! b = h ! b" by simp
    qed
    have e3: "extends h ?h3" by (rule extends_trans[OF e2 extends_append])
    have gn: "getNodes ?h3 (length h2) = Some nodes" by (simp add: getNodes_cell)
    have nv3: "list_all2 (\<lambda>a v. nodeView ?h3 a = Some v) nodes (getFamilySet st cid)"
      unfolding p
      by (rule list_all2_mono[OF nv]) (rule nodeView_ext[OF extends_append])
    from res e3 gn lower nv3 extends_length[OF e2] show ?thesis by blast
  qed
qed

text \<open>Two calls with the same id, the second on the heap the first leaves.\<close>

definition extractTwice :: "store_h \<Rightarrow> heap \<Rightarrow> string \<Rightarrow> (heap \<times> addr \<times> heap \<times> addr) option" where
  "extractTwice sh h centerId =
     do {
       (h1, r1) \<leftarrow> getFamilySet_h sh h centerId;
       (h2, r2) \<leftarrow> getFamilySet_h sh h1 centerId;
       Some (h1, r1, h2, r2)
     }"

text \<open>
  C7.  For a heap that represents a store and any id, both calls return.  The two
  returned arrays denote the same list of nodes, the list \<^const>\<open>getFamilySet\<close> gives,
  also when the first is read after the second call; they are different arrays and share
  no node object.  Every cell that was in the heap before the calls, so every person
  object and every \<^verbatim>\<open>pids\<close> and children array of the store, is unchanged after each
  call, and the maps, which are only read, still represent the same store.
\<close>

theorem getFamilySet_twice:
  assumes "represents sh h st"
  shows "\<exists>h1 r1 h2 r2 ns1 ns2.
           extractTwice sh h centerId = Some (h1, r1, h2, r2) \<and>
           resultView h1 r1 = Some (getFamilySet st centerId) \<and>
           resultView h2 r1 = Some (getFamilySet st centerId) \<and>
           resultView h2 r2 = Some (getFamilySet st centerId) \<and>
           r1 \<noteq> r2 \<and>
           getNodes h2 r1 = Some ns1 \<and> getNodes h2 r2 = Some ns2 \<and> set ns1 \<inter> set ns2 = {} \<and>
           take (length h) h1 = h \<and> take (length h) h2 = h \<and>
           represents sh h1 st \<and> represents sh h2 st"
proof -
  from getFamilySet_h_refines[OF assms, of centerId] obtain h1 r1 ns1 where
    c1: "getFamilySet_h sh h centerId = Some (h1, r1)" and e1: "extends h h1"
    and g1: "getNodes h1 r1 = Some ns1"
    and v1: "list_all2 (\<lambda>a v. nodeView h1 a = Some v) ns1 (getFamilySet st centerId)"
    by blast
  have rep1: "represents sh h1 st" by (rule represents_ext[OF assms e1])
  from getFamilySet_h_refines[OF rep1, of centerId] obtain h2 r2 ns2 where
    c2: "getFamilySet_h sh h1 centerId = Some (h2, r2)" and e2: "extends h1 h2"
    and l2: "length h1 \<le> r2"
    and g2: "getNodes h2 r2 = Some ns2"
    and lo2: "\<forall>a \<in> set ns2. length h1 \<le> a"
    and v2: "list_all2 (\<lambda>a v. nodeView h2 a = Some v) ns2 (getFamilySet st centerId)"
    by blast
  have rep2: "represents sh h2 st" by (rule represents_ext[OF rep1 e2])
  have e02: "extends h h2" by (rule extends_trans[OF e1 e2])
  have g12: "getNodes h2 r1 = Some ns1" by (rule getNodes_ext[OF e2 g1])
  have v12: "list_all2 (\<lambda>a v. nodeView h2 a = Some v) ns1 (getFamilySet st centerId)"
    by (rule list_all2_mono[OF v1]) (rule nodeView_ext[OF e2])
  have t: "extractTwice sh h centerId = Some (h1, r1, h2, r2)"
    by (simp add: extractTwice_def c1 c2)
  have rv1: "resultView h1 r1 = Some (getFamilySet st centerId)"
    by (simp add: resultView_def g1 all_some_view[OF v1])
  have rv12: "resultView h2 r1 = Some (getFamilySet st centerId)"
    by (simp add: resultView_def g12 all_some_view[OF v12])
  have rv2: "resultView h2 r2 = Some (getFamilySet st centerId)"
    by (simp add: resultView_def g2 all_some_view[OF v2])
  from g1 have "r1 < length h1" by (simp add: getNodes_cell)
  with l2 have ne: "r1 \<noteq> r2" by simp
  have up1: "\<And>a. a \<in> set ns1 \<Longrightarrow> a < length h1"
  proof -
    fix a assume "a \<in> set ns1"
    then obtain i where "i < length ns1" "ns1 ! i = a" by (auto simp: in_set_conv_nth)
    with v1 have "nodeView h1 a = Some (getFamilySet st centerId ! i)"
      by (auto simp: list_all2_conv_all_nth)
    then show "a < length h1" by (rule nodeView_bound)
  qed
  have dj: "set ns1 \<inter> set ns2 = {}"
  proof (rule ccontr)
    assume "set ns1 \<inter> set ns2 \<noteq> {}"
    then obtain a where "a \<in> set ns1" "a \<in> set ns2" by blast
    with up1[of a] lo2 show False by auto
  qed
  from e1 have t1: "take (length h) h1 = h" by (simp add: extends_def)
  from e02 have t2: "take (length h) h2 = h" by (simp add: extends_def)
  from t rv1 rv12 rv2 ne g12 g2 dj t1 t2 rep1 rep2 show ?thesis by blast
qed

subsection \<open>Every store has a heap\<close>

lemma withPids_back: "withPids (withPids p a) (pids p) = (p :: person)"
  by (cases p) (simp add: withPids_def)

lemma layoutPeople_represents:
  assumes "layoutPeople ps h = (h1, m)"
  shows "extends h h1 \<and>
         list_all2 (\<lambda>r v. fst r = fst v \<and> personView h1 (snd r) = Some (snd v)) m ps"
  using assms
proof (induction ps arbitrary: h h1 m)
  case Nil
  then show ?case by (simp add: extends_refl)
next
  case (Cons ip ps)
  obtain i p where ip: "ip = (i, p)" by (cases ip)
  let ?ha = "h @ [ArrayCell (pids p)]"
  let ?hb = "?ha @ [PersonCell (withPids p (length h))]"
  obtain h3 m3 where rec: "layoutPeople ps ?hb = (h3, m3)" by (cases "layoutPeople ps ?hb")
  from Cons.prems ip rec have res: "h1 = h3" "m = (i, length ?ha) # m3"
    by (simp_all add: alloc_def)
  from Cons.IH[OF rec] have e3: "extends ?hb h3"
    and v3: "list_all2 (\<lambda>r v. fst r = fst v \<and> personView h3 (snd r) = Some (snd v)) m3 ps"
    by simp_all
  have "extends h ?ha" by (rule extends_append)
  from extends_trans[OF this extends_append] have eb: "extends h ?hb" .
  have e: "extends h h3" by (rule extends_trans[OF eb e3])
  have gp: "getPerson ?hb (length ?ha) = Some (withPids p (length h))"
    by (simp add: getPerson_cell nth_append)
  have ga: "getArray ?hb (length h) = Some (pids p)"
    by (simp add: getArray_cell nth_append)
  have "pids (withPids p (length h)) = length h" by (simp add: withPids_def)
  with gp ga have "personView ?hb (length ?ha) = Some p"
    unfolding personView_iff using withPids_back[of p "length h"] by auto
  from personView_ext[OF e3 this] have "personView h3 (length ?ha) = Some p" .
  with v3 e res ip show ?case by simp
qed

lemma layoutChildren_represents:
  assumes "layoutChildren cm h = (h1, m)"
  shows "extends h h1 \<and>
         list_all2 (\<lambda>r v. fst r = fst v \<and> getArray h1 (snd r) = Some (snd v)) m cm"
  using assms
proof (induction cm arbitrary: h h1 m)
  case Nil
  then show ?case by (simp add: extends_refl)
next
  case (Cons ic cm)
  obtain i cs where ic: "ic = (i, cs)" by (cases ic)
  let ?ha = "h @ [ArrayCell cs]"
  obtain h3 m3 where rec: "layoutChildren cm ?ha = (h3, m3)" by (cases "layoutChildren cm ?ha")
  from Cons.prems ic rec have res: "h1 = h3" "m = (i, length h) # m3"
    by (simp_all add: alloc_def)
  from Cons.IH[OF rec] have e3: "extends ?ha h3"
    and v3: "list_all2 (\<lambda>r v. fst r = fst v \<and> getArray h3 (snd r) = Some (snd v)) m3 cm"
    by simp_all
  have e: "extends h h3" by (rule extends_trans[OF extends_append e3])
  have "getArray ?ha (length h) = Some cs" by (simp add: getArray_cell)
  from getArray_ext[OF e3 this] have "getArray h3 (length h) = Some cs" .
  with v3 e res ic show ?case by simp
qed

lemma represents_layout: "represents (fst (layout st)) (snd (layout st)) st"
proof -
  obtain h1 pm where p: "layoutPeople (peopleMap st) [] = (h1, pm)"
    by (cases "layoutPeople (peopleMap st) []")
  obtain h2 cm where c: "layoutChildren (childrenMap st) h1 = (h2, cm)"
    by (cases "layoutChildren (childrenMap st) h1")
  have l: "layout st = (\<lparr>peopleMap_h = pm, childrenMap_h = cm, genderMap_h = genderMap st\<rparr>, h2)"
    by (simp add: layout_def p c)
  from layoutPeople_represents[OF p]
  have v1: "list_all2 (\<lambda>r v. fst r = fst v \<and> personView h1 (snd r) = Some (snd v)) pm (peopleMap st)"
    by simp
  from layoutChildren_represents[OF c] have e: "extends h1 h2"
    and v2: "list_all2 (\<lambda>r v. fst r = fst v \<and> getArray h2 (snd r) = Some (snd v)) cm (childrenMap st)"
    by simp_all
  have "list_all2 (\<lambda>r v. fst r = fst v \<and> personView h2 (snd r) = Some (snd v)) pm (peopleMap st)"
    by (rule list_all2_mono[OF v1]) (simp add: personView_ext[OF e])
  with v2 show ?thesis by (simp add: l represents_def)
qed

text \<open>
  The data set laid out in 19 cells: the two calls for \<open>X\<close> return the arrays at 27
  and 36, with the nodes at 19 to 22 and at 28 to 31.
\<close>

theorem getFamilySet_twice_witness:
  "represents (fst familyLayout) (snd familyLayout) familyStore \<and>
   length (snd familyLayout) = 19 \<and>
   map id' (getFamilySet familyStore ''X'') = [''X'', ''P'', ''M'', ''W''] \<and>
   map pids (getFamilySet familyStore ''X'') = [[''W''], [''M''], [''P''], [''X'']] \<and>
   (\<exists>h1 r1 h2 r2.
      extractTwice (fst familyLayout) (snd familyLayout) ''X'' = Some (h1, r1, h2, r2) \<and>
      r1 = 27 \<and> r2 = 36 \<and>
      getNodes h2 r1 = Some [19, 20, 21, 22] \<and>
      getNodes h2 r2 = Some [28, 29, 30, 31] \<and>
      resultView h2 r1 = Some (getFamilySet familyStore ''X'') \<and>
      resultView h2 r2 = Some (getFamilySet familyStore ''X'') \<and>
      take 19 h1 = snd familyLayout \<and>
      take 19 h2 = snd familyLayout)"
proof -
  let ?sh = "fst familyLayout" and ?h = "snd familyLayout"
  have rep: "represents ?sh ?h familyStore"
    unfolding familyLayout_def by (rule represents_layout)
  have len: "length ?h = 19"
    by code_simp
  have ids: "map id' (getFamilySet familyStore ''X'') = [''X'', ''P'', ''M'', ''W'']"
    by code_simp
  have ps: "map pids (getFamilySet familyStore ''X'') = [[''W''], [''M''], [''P''], [''X'']]"
    by code_simp
  have ev: "map_option (\<lambda>(h1, r1, h2, r2). (r1, r2, getNodes h2 r1, getNodes h2 r2))
              (extractTwice ?sh ?h ''X'') =
            Some (27, 36, Some [19, 20, 21, 22], Some [28, 29, 30, 31])"
    by code_simp
  from getFamilySet_twice[OF rep, of "''X''"] obtain h1 r1 h2 r2 where
    t: "extractTwice ?sh ?h ''X'' = Some (h1, r1, h2, r2)"
    and v1: "resultView h2 r1 = Some (getFamilySet familyStore ''X'')"
    and v2: "resultView h2 r2 = Some (getFamilySet familyStore ''X'')"
    and t1: "take (length ?h) h1 = ?h"
    and t2: "take (length ?h) h2 = ?h"
    by blast
  from ev t have c: "r1 = 27 \<and> r2 = 36 \<and> getNodes h2 r1 = Some [19, 20, 21, 22] \<and>
    getNodes h2 r2 = Some [28, 29, 30, 31]"
    by auto
  from t1 t2 have t19: "take 19 h1 = ?h" "take 19 h2 = ?h"
    by (simp_all only: len)
  from t c v1 v2 t19 have
    "\<exists>h1 r1 h2 r2.
      extractTwice ?sh ?h ''X'' = Some (h1, r1, h2, r2) \<and>
      r1 = 27 \<and> r2 = 36 \<and>
      getNodes h2 r1 = Some [19, 20, 21, 22] \<and>
      getNodes h2 r2 = Some [28, 29, 30, 31] \<and>
      resultView h2 r1 = Some (getFamilySet familyStore ''X'') \<and>
      resultView h2 r2 = Some (getFamilySet familyStore ''X'') \<and>
      take 19 h1 = ?h \<and> take 19 h2 = ?h"
    by blast
  with rep len ids ps show ?thesis by blast
qed

end
